theory Spec2Isabelle
  imports Main "HOL-Library.AList"
begin

section \<open>Strings and the regular-expression character classes\<close>

text \<open>
  A Python \<open>str\<close> is modelled as a \<open>string\<close> whose characters are the code points
  U+0000 to U+00FF. The classes below are the ones Python's \<open>re\<close> module uses for
  \<open>str\<close> patterns, restricted to that range: \<open>\d\<close> is the decimal digits,
  \<open>\w\<close> is every alphanumeric character and the underscore, \<open>\s\<close> is the
  Unicode whitespace.
\<close>

definition code :: "char \<Rightarrow> nat" where
  "code c = of_char c"

definition is_digit :: "char \<Rightarrow> bool" where
  "is_digit c = (48 \<le> code c \<and> code c \<le> 57)"

definition is_alnum :: "char \<Rightarrow> bool" where
  "is_alnum c =
     (let n = code c in
        (48 \<le> n \<and> n \<le> 57) \<or> (65 \<le> n \<and> n \<le> 90) \<or> (97 \<le> n \<and> n \<le> 122) \<or>
        n = 170 \<or> n = 178 \<or> n = 179 \<or> n = 181 \<or> n = 185 \<or> n = 186 \<or>
        (188 \<le> n \<and> n \<le> 190) \<or> (192 \<le> n \<and> n \<le> 214) \<or>
        (216 \<le> n \<and> n \<le> 246) \<or> (248 \<le> n \<and> n \<le> 255))"

definition is_word :: "char \<Rightarrow> bool" where
  "is_word c = (is_alnum c \<or> c = CHR ''_'')"

definition is_space :: "char \<Rightarrow> bool" where
  "is_space c =
     (let n = code c in (9 \<le> n \<and> n \<le> 13) \<or> (28 \<le> n \<and> n \<le> 32) \<or> n = 133 \<or> n = 160)"

text \<open>The class \<open>[\w-]\<close> of the accession pattern.\<close>

definition is_word_or_hyphen :: "char \<Rightarrow> bool" where
  "is_word_or_hyphen c = (is_word c \<or> c = CHR ''-'')"

text \<open>\<open>str.split(sep)\<close> for a one-character separator: never an empty list.\<close>

fun split_on :: "char \<Rightarrow> string \<Rightarrow> string list" where
  "split_on sep [] = [[]]"
| "split_on sep (c # cs) =
     (let r = split_on sep cs in if c = sep then [] # r else (c # hd r) # tl r)"

text \<open>
  \<open>int(s)\<close> on a run of decimal digits, and \<open>str(n)\<close> of an integer. Python's
  integers are unbounded; the interpreter's configurable cap on the length of a decimal
  conversion is outside the model.
\<close>

definition digit_val :: "char \<Rightarrow> int" where
  "digit_val c = int (code c) - 48"

definition int_of_digits :: "string \<Rightarrow> int" where
  "int_of_digits ds = foldl (\<lambda>a c. 10 * a + digit_val c) 0 ds"

definition digit_char :: "nat \<Rightarrow> char" where
  "digit_char n = char_of (48 + n)"

function str_nat :: "nat \<Rightarrow> string" where
  "str_nat n = (if n < 10 then [digit_char n] else str_nat (n div 10) @ [digit_char (n mod 10)])"
  by pat_completeness auto
termination
  by (relation "measure id") auto

definition str_int :: "int \<Rightarrow> string" where
  "str_int i = (if i < 0 then CHR ''-'' # str_nat (nat (- i)) else str_nat (nat i))"

section \<open>sanitize_filename\<close>

text \<open>
  \<open>re.sub(r'[^\w\s-]', '', filename)\<close> deletes every character outside the class;
  \<open>re.sub(r'\s+', '_', filename)\<close> scans from the left and replaces each maximal run
  of whitespace by one underscore.
\<close>

definition strip_special :: "string \<Rightarrow> string" where
  "strip_special s = filter (\<lambda>c. is_word c \<or> is_space c \<or> c = CHR ''-'') s"

function sub_spaces :: "string \<Rightarrow> string" where
  "sub_spaces [] = []"
| "sub_spaces (c # cs) =
     (if is_space c then CHR ''_'' # sub_spaces (dropWhile is_space cs)
      else c # sub_spaces cs)"
  by pat_completeness auto
termination
  by (relation "measure length") (auto simp: length_dropWhile_le less_Suc_eq_le)

definition sanitize_filename :: "string \<Rightarrow> string" where
  "sanitize_filename filename = sub_spaces (strip_special filename)"

section \<open>parse_accession_ids\<close>

text \<open>
  The exceptions the program can raise: those of the parser and of the index, and those
  of the operating system when the output folder is made and a file is opened.
\<close>

datatype os_error =
  FileNotFoundError | FileExistsError | NotADirectoryError | IsADirectoryError
  | PermissionError | OtherOSError

datatype error =
  AttributeError | ValueError_unpack | ValueError_duplicate_key string
  | ValueError_null_byte | OSError os_error

text \<open>
  \<open>re.findall(r'\b([LSM]):\s*([\w-]+(?:,[\w-]+)*)', accession_str)\<close>.
  \<open>comma_parts\<close> is the greedy tail \<open>(?:,[\w-]+)*\<close>: it returns the text it
  consumes and the rest. Nothing follows it in the pattern, so the first greedy attempt
  is the match.
\<close>

function comma_parts :: "string \<Rightarrow> string \<times> string" where
  "comma_parts [] = ([], [])"
| "comma_parts (c # cs) =
     (if c = CHR '','' \<and> takeWhile is_word_or_hyphen cs \<noteq> [] then
        (let (m, r) = comma_parts (dropWhile is_word_or_hyphen cs)
         in (c # takeWhile is_word_or_hyphen cs @ m, r))
      else ([], c # cs))"
  by pat_completeness auto
termination
  by (relation "measure length") (auto simp: length_dropWhile_le less_Suc_eq_le)

text \<open>\<open>\b\<close> between the character before a position (if any) and the one at it.\<close>

definition word_boundary :: "char option \<Rightarrow> char option \<Rightarrow> bool" where
  "word_boundary prev nxt =
     ((case prev of None \<Rightarrow> False | Some p \<Rightarrow> is_word p) \<noteq>
      (case nxt of None \<Rightarrow> False | Some n \<Rightarrow> is_word n))"

text \<open>
  One match attempt at a position: \<open>prev\<close> is the character before it. The result is
  the two groups, the last character matched and the text after the match.
\<close>

definition match_here :: "char option \<Rightarrow> string \<Rightarrow> ((string \<times> string) \<times> char \<times> string) option" where
  "match_here prev s =
     (case s of
        k # c # r \<Rightarrow>
          if word_boundary prev (Some k) \<and> k \<in> set ''LSM'' \<and> c = CHR '':'' then
            (let r1 = dropWhile is_space r;
                 g1 = takeWhile is_word_or_hyphen r1
             in if g1 = [] then None
                else (let (m, rest) = comma_parts (dropWhile is_word_or_hyphen r1);
                          grp = g1 @ m
                      in Some (([k], grp), last grp, rest)))
          else None
      | _ \<Rightarrow> None)"

text \<open>
  The scan of \<open>findall\<close>: try each position from the left; after a match, go on at
  its end.
\<close>

function findall_from :: "char option \<Rightarrow> string \<Rightarrow> (string \<times> string) list" where
  "findall_from prev [] = []"
| "findall_from prev (c # cs) =
     (case match_here prev (c # cs) of
        Some (kg, l, rest) \<Rightarrow> kg # findall_from (Some l) rest
      | None \<Rightarrow> findall_from (Some c) cs)"
  by pat_completeness auto
termination
proof (relation "measure (\<lambda>(p, s). length s)")
  show "wf (measure (\<lambda>(p, s). length s))" by simp
next
  fix prev :: "char option" and c :: char and cs :: string
  show "((Some c, cs), (prev, c # cs)) \<in> measure (\<lambda>(p, s). length s)" by simp
next
  fix prev :: "char option" and c :: char and cs :: string
    and x2 :: "(string \<times> string) \<times> char \<times> string" and kg :: "string \<times> string"
    and y :: "char \<times> string" and l :: char and rest :: string
  assume m: "match_here prev (c # cs) = Some x2" and x2: "(kg, y) = x2" and y: "(l, rest) = y"
  have cp: "length (snd (comma_parts s)) \<le> length s" for s
  proof (induction s rule: comma_parts.induct)
    case 1
    show ?case by simp
  next
    case (2 d ds)
    show ?case
    proof (cases "d = CHR '','' \<and> takeWhile is_word_or_hyphen ds \<noteq> []")
      case True
      have "length (snd (comma_parts (dropWhile is_word_or_hyphen ds))) \<le>
          length (dropWhile is_word_or_hyphen ds)"
        using True by (intro "2.IH") simp_all
      moreover have "length (dropWhile is_word_or_hyphen ds) \<le> length ds"
        by (rule length_dropWhile_le)
      ultimately show ?thesis using True by (simp add: case_prod_beta)
    next
      case False
      then show ?thesis by auto
    qed
  qed
  from m obtain k r where s: "c # cs = k # CHR '':'' # r"
    and rest: "rest = snd (comma_parts (dropWhile is_word_or_hyphen (dropWhile is_space r)))"
    using x2 y unfolding match_here_def
    by (auto simp: Let_def case_prod_beta split: list.splits if_splits)
  have "length rest \<le> length (dropWhile is_word_or_hyphen (dropWhile is_space r))"
    unfolding rest by (rule cp)
  also have "\<dots> \<le> length (dropWhile is_space r)" by (rule length_dropWhile_le)
  also have "\<dots> \<le> length r" by (rule length_dropWhile_le)
  finally have "length rest < length (c # cs)" unfolding s by simp
  then show "((Some l, rest), (prev, c # cs)) \<in> measure (\<lambda>(p, s). length s)" by simp
qed

definition findall :: "string \<Rightarrow> (string \<times> string) list" where
  "findall s = findall_from None s"

text \<open>
  \<open>re.search(r'\d+$', s)\<close>: the leftmost position from which a run of digits reaches
  the end of the string (or the newline that ends it); \<open>None\<close> when there is none.
\<close>

fun search_digits_end :: "string \<Rightarrow> string option" where
  "search_digits_end [] = None"
| "search_digits_end (c # cs) =
     (let ds = takeWhile is_digit (c # cs); r = dropWhile is_digit (c # cs)
      in if ds \<noteq> [] \<and> (r = [] \<or> r = [CHR 0x0A]) then Some ds
         else search_digits_end cs)"

text \<open>
  The body of the loop over the parts of a group. Unpacking \<open>part.split('-')\<close> into
  two names raises ValueError unless there is exactly one hyphen; \<open>.group(0)\<close> on a
  failed search raises AttributeError.
\<close>

definition parse_part :: "string \<Rightarrow> error + string list" where
  "parse_part part =
     (if CHR ''-'' \<in> set part then
        (case split_on CHR ''-'' part of
           [start, end'] \<Rightarrow>
             (case search_digits_end start of
                None \<Rightarrow> Inl AttributeError
              | Some start_num \<Rightarrow>
                  (case search_digits_end end' of
                     None \<Rightarrow> Inl AttributeError
                   | Some end_num \<Rightarrow>
                       (let start_prefix = take (length start - length start_num) start
                        in Inr (map (\<lambda>num. start_prefix @ str_int num)
                                  [int_of_digits start_num .. int_of_digits end_num]))))
         | _ \<Rightarrow> Inl ValueError_unpack)
      else Inr [part])"

fun parse_parts :: "string list \<Rightarrow> string list \<Rightarrow> error + string list" where
  "parse_parts ids [] = Inr ids"
| "parse_parts ids (part # parts) =
     (case parse_part part of
        Inl e \<Rightarrow> Inl e
      | Inr new \<Rightarrow> parse_parts (ids @ new) parts)"

text \<open>
  The loop over the matches. The dictionary \<open>acc_dict\<close> is an association list in
  insertion order: assigning to a key that is present replaces its value in place.
\<close>

fun parse_pairs ::
  "string \<Rightarrow> (string \<times> string list) list \<Rightarrow> (string \<times> string) list \<Rightarrow>
   error + (string \<times> string list) list" where
  "parse_pairs segment acc_dict [] = Inr acc_dict"
| "parse_pairs segment acc_dict ((key, grp) # rest) =
     (if segment \<noteq> ''all'' \<and> key \<noteq> segment then parse_pairs segment acc_dict rest
      else (case parse_parts [] (split_on CHR '','' grp) of
              Inl e \<Rightarrow> Inl e
            | Inr ids \<Rightarrow> parse_pairs segment (AList.update key ids acc_dict) rest))"

definition parse_accession_ids :: "string \<Rightarrow> string \<Rightarrow> error + (string \<times> string list) list" where
  "parse_accession_ids accession_str segment = parse_pairs segment [] (findall accession_str)"

text \<open>\<open>','.join(ts)\<close>, and the shape of one token of a group: a non-empty run of \<open>[\w-]\<close>.\<close>

fun join_commas :: "string list \<Rightarrow> string" where
  "join_commas [] = []"
| "join_commas [t] = t"
| "join_commas (t # ts) = t @ CHR '','' # join_commas ts"

definition is_token :: "string \<Rightarrow> bool" where
  "is_token t = (t \<noteq> [] \<and> list_all is_word_or_hyphen t)"

text \<open>
  Text at which a group ends: nothing, or a character outside \<open>[\w-]\<close> that is not a
  comma followed by a token character.
\<close>

definition stops :: "string \<Rightarrow> bool" where
  "stops rest = (rest = [] \<or> (\<not> is_word_or_hyphen (hd rest) \<and>
      (hd rest = CHR '','' \<longrightarrow> tl rest = [] \<or> \<not> is_word_or_hyphen (hd (tl rest)))))"

section \<open>read_fasta_sequences\<close>

text \<open>
  A record of the archive, as \<open>SeqIO.parse\<close> yields it: its identifier and its payload.
\<close>

record seq_record =
  rec_id :: string
  rec_seq :: string

text \<open>The key function \<open>lambda record: record.id.split('.')[0]\<close>.\<close>

definition key_function :: "seq_record \<Rightarrow> string" where
  "key_function r = hd (split_on CHR ''.'' (rec_id r))"

text \<open>
  \<open>SeqIO.to_dict\<close> of Biopython: it inserts the records one by one under their keys
  and raises ValueError at the first key that is already present.
\<close>

fun to_dict :: "(string \<times> seq_record) list \<Rightarrow> seq_record list \<Rightarrow> error + (string \<times> seq_record) list" where
  "to_dict d [] = Inr d"
| "to_dict d (r # rs) =
     (let key = key_function r
      in if map_of d key \<noteq> None then Inl (ValueError_duplicate_key key)
         else to_dict (d @ [(key, r)]) rs)"

text \<open>
  The result is only ever read with \<open>.get\<close>, and the comprehension runs over a set,
  so it is a map: the index restricted to the requested accessions.
\<close>

definition read_fasta_sequences :: "seq_record list \<Rightarrow> string set \<Rightarrow> error + (string \<rightharpoonup> seq_record)" where
  "read_fasta_sequences fasta accessions =
     (case to_dict [] fasta of
        Inl e \<Rightarrow> Inl e
      | Inr records \<Rightarrow> Inr (map_of records |` accessions))"

section \<open>write_fasta_files\<close>

record row =
  species :: string
  virus_names :: string
  accession :: string

text \<open>
  The two nested loops that fill one file; \<open>f\<close> is what has been written to it so
  far. A \<open>SeqRecord\<close> is always true, so \<open>if sequences.get(acc)\<close> tests presence.
  The keys of \<open>acc_dict\<close> are distinct, so running over its keys and looking each one
  up is running over its entries.
\<close>

fun write_accs :: "(string \<rightharpoonup> seq_record) \<Rightarrow> seq_record list \<Rightarrow> string list \<Rightarrow> seq_record list" where
  "write_accs sequences f [] = f"
| "write_accs sequences f (acc # accs) =
     (case sequences acc of
        Some r \<Rightarrow> write_accs sequences (f @ [r]) accs
      | None \<Rightarrow> write_accs sequences f accs)"

fun write_keys ::
  "(string \<rightharpoonup> seq_record) \<Rightarrow> seq_record list \<Rightarrow> (string \<times> string list) list \<Rightarrow> seq_record list" where
  "write_keys sequences f [] = f"
| "write_keys sequences f ((key, ids) # rest) =
     write_keys sequences (write_accs sequences f ids) rest"

text \<open>\<open>os.path.join\<close> of two components (POSIX).\<close>

definition os_path_join :: "string \<Rightarrow> string \<Rightarrow> string" where
  "os_path_join a b =
     (if b \<noteq> [] \<and> hd b = CHR ''/'' then b
      else if a = [] \<or> last a = CHR ''/'' then a @ b
      else a @ CHR ''/'' # b)"

definition filepath_of :: "string \<Rightarrow> string \<Rightarrow> row \<Rightarrow> string" where
  "filepath_of output_folder segment r =
     (let filename_suffix = (if segment \<noteq> ''all'' then ''_'' @ segment @ ''.fasta'' else ''_all.fasta'');
          filename = sanitize_filename (species r) @ ''_'' @ sanitize_filename (virus_names r)
                       @ filename_suffix
      in os_path_join output_folder filename)"

text \<open>
  What the operating system answers is a parameter of the model: whether a path exists
  when the run starts, what \<open>os.makedirs\<close> raises for a path, if anything, and what
  \<open>open(path, 'w')\<close> raises for a path, if anything, given the files written so far.
  Two answers do not depend on the system and are fixed: the empty path does not exist
  and cannot be made or opened (FileNotFoundError), and a path with a null character
  does not exist and raises ValueError.
\<close>

record os_env =
  exists_at_start :: "string \<Rightarrow> bool"
  makedirs_error :: "string \<Rightarrow> os_error option"
  open_error :: "(string \<times> seq_record list) list \<Rightarrow> string \<Rightarrow> os_error option"

definition has_null :: "string \<Rightarrow> bool" where
  "has_null p = (CHR 0x00 \<in> set p)"

definition os_path_exists :: "os_env \<Rightarrow> string \<Rightarrow> bool" where
  "os_path_exists env p = (p \<noteq> [] \<and> \<not> has_null p \<and> exists_at_start env p)"

definition os_makedirs :: "os_env \<Rightarrow> string \<Rightarrow> error option" where
  "os_makedirs env p =
     (if has_null p then Some ValueError_null_byte
      else if p = [] then Some (OSError FileNotFoundError)
      else map_option OSError (makedirs_error env p))"

definition open_w :: "os_env \<Rightarrow> (string \<times> seq_record list) list \<Rightarrow> string \<Rightarrow> error option" where
  "open_w env files p =
     (if has_null p then Some ValueError_null_byte
      else if p = [] then Some (OSError FileNotFoundError)
      else map_option OSError (open_error env files p))"

text \<open>
  The loop over the rows. The files on disk are an association list from path to
  content; opening with \<open>'w'\<close> replaces. In each turn the accession string is parsed
  before the file is opened, so a parse error ends the run without touching the file of
  its row; then the file is opened, which the system may refuse; then the two nested
  loops write the records.
\<close>

fun write_rows ::
  "os_env \<Rightarrow> (string \<rightharpoonup> seq_record) \<Rightarrow> string \<Rightarrow> string \<Rightarrow> (string \<times> seq_record list) list \<Rightarrow>
   row list \<Rightarrow> error + (string \<times> seq_record list) list" where
  "write_rows env sequences output_folder segment files [] = Inr files"
| "write_rows env sequences output_folder segment files (r # rs) =
     (let filepath = filepath_of output_folder segment r
      in case parse_accession_ids (accession r) segment of
           Inl e \<Rightarrow> Inl e
         | Inr acc_dict \<Rightarrow>
             (case open_w env files filepath of
                Some e \<Rightarrow> Inl e
              | None \<Rightarrow>
                  write_rows env sequences output_folder segment
                    (AList.update filepath (write_keys sequences [] acc_dict) files) rs))"

text \<open>
  \<open>write_fasta_files\<close>: the output folder is made when it does not exist, which can
  fail before any row is read; then the rows are written.
\<close>

definition write_fasta_files ::
  "os_env \<Rightarrow> row list \<Rightarrow> (string \<rightharpoonup> seq_record) \<Rightarrow> string \<Rightarrow> string \<Rightarrow>
   (string \<times> seq_record list) list \<Rightarrow> error + (string \<times> seq_record list) list" where
  "write_fasta_files env df sequences output_folder segment files =
     (if \<not> os_path_exists env output_folder then
        (case os_makedirs env output_folder of
           Some e \<Rightarrow> Inl e
         | None \<Rightarrow> write_rows env sequences output_folder segment files df)
      else write_rows env sequences output_folder segment files df)"

text \<open>
  The records a row's file is expected to hold: the records of its identifiers that the
  lookup table has, in the order of the segments and of the tokens within each.
\<close>

definition group_records :: "(string \<rightharpoonup> seq_record) \<Rightarrow> string \<Rightarrow> row \<Rightarrow> seq_record list" where
  "group_records sequences segment r =
     (case parse_accession_ids (accession r) segment of
        Inl e \<Rightarrow> []
      | Inr acc_dict \<Rightarrow>
          map the (filter (\<lambda>x. x \<noteq> None) (map sequences (concat (map snd acc_dict)))))"

section \<open>main\<close>

text \<open>The set of every accession of every row, as \<open>main\<close> collects it.\<close>

fun collect_accessions :: "string \<Rightarrow> row list \<Rightarrow> error + string set" where
  "collect_accessions segment [] = Inr {}"
| "collect_accessions segment (r # rs) =
     (case parse_accession_ids (accession r) segment of
        Inl e \<Rightarrow> Inl e
      | Inr acc_dict \<Rightarrow>
          (case collect_accessions segment rs of
             Inl e \<Rightarrow> Inl e
           | Inr accessions \<Rightarrow> Inr (set (concat (map snd acc_dict)) \<union> accessions)))"

text \<open>
  \<open>main\<close> after the spreadsheet has been read and filtered into \<open>df\<close> and the
  archive has been read into \<open>fasta\<close>.
\<close>

definition main ::
  "os_env \<Rightarrow> row list \<Rightarrow> seq_record list \<Rightarrow> string \<Rightarrow> string \<Rightarrow>
   (string \<times> seq_record list) list \<Rightarrow> error + (string \<times> seq_record list) list" where
  "main env df fasta output_folder segment files =
     (case collect_accessions segment df of
        Inl e \<Rightarrow> Inl e
      | Inr accessions \<Rightarrow>
          (case read_fasta_sequences fasta accessions of
             Inl e \<Rightarrow> Inl e
           | Inr sequences \<Rightarrow> write_fasta_files env df sequences output_folder segment files))"

section \<open>The sanitization rule in the specification's words\<close>

text \<open>
  Strip every character that is not alphanumeric, whitespace or hyphen; then collapse
  each run of whitespace to a single underscore: a whitespace character is dropped when
  another one follows it, and becomes the underscore when it ends its run.
\<close>

definition spec_strip :: "string \<Rightarrow> string" where
  "spec_strip s = filter (\<lambda>c. is_alnum c \<or> is_space c \<or> c = CHR ''-'') s"

fun spec_collapse :: "string \<Rightarrow> string" where
  "spec_collapse [] = []"
| "spec_collapse [c] = (if is_space c then [CHR ''_''] else [c])"
| "spec_collapse (c # d # cs) =
     (if is_space c then (if is_space d then spec_collapse (d # cs)
                          else CHR ''_'' # spec_collapse (d # cs))
      else c # spec_collapse (d # cs))"

definition spec_sanitize :: "string \<Rightarrow> string" where
  "spec_sanitize s = spec_collapse (spec_strip s)"

section \<open>Auxiliary lemmas\<close>

lemma code_simps:
  "code CHR ''-'' = 45" "code CHR ''_'' = 95" "code CHR '','' = 44" "code CHR '':'' = 58"
  "code CHR ''.'' = 46" "code (CHR 0x0A) = 10" "code CHR ''0'' = 48"
  by (simp_all add: code_def)

lemma code_inj: "code a = code b \<Longrightarrow> a = b"
  by (simp add: code_def)

lemma digit_is_word: "is_digit c \<Longrightarrow> is_word c"
  by (simp add: is_digit_def is_word_def is_alnum_def Let_def)

lemma word_is_word_or_hyphen: "is_word c \<Longrightarrow> is_word_or_hyphen c"
  by (simp add: is_word_or_hyphen_def)

lemma word_not_hyphen: "is_word c \<Longrightarrow> c \<noteq> CHR ''-''"
  by (auto simp: is_word_def is_alnum_def Let_def code_simps)

lemma word_or_hyphen_not_sep:
  "is_word_or_hyphen c \<Longrightarrow> c \<noteq> CHR '','' \<and> c \<noteq> CHR '':'' \<and> \<not> is_space c"
  by (auto simp: is_word_or_hyphen_def is_word_def is_alnum_def is_space_def Let_def code_simps)

lemma split_on_no_sep: "sep \<notin> set s \<Longrightarrow> split_on sep s = [s]"
  by (induction s) (auto simp: Let_def)

lemma split_on_append:
  "sep \<notin> set a \<Longrightarrow> split_on sep (a @ sep # b) = a # split_on sep b"
  by (induction a) (auto simp: Let_def)

lemma search_digits_all:
  "ds \<noteq> [] \<Longrightarrow> list_all is_digit ds \<Longrightarrow> search_digits_end ds = Some ds"
  by (cases ds) (auto simp: Let_def list_all_iff takeWhile_eq_all_conv dropWhile_eq_Nil_conv)

lemma search_digits_end_suffix:
  assumes "ds \<noteq> []" "list_all is_digit ds" "p = [] \<or> \<not> is_digit (last p)"
  shows "search_digits_end (p @ ds) = Some ds"
  using assms
proof (induction p)
  case Nil
  then show ?case by (simp add: search_digits_all)
next
  case (Cons c p)
  have IH: "search_digits_end (p @ ds) = Some ds"
    using Cons by (cases p) auto
  show ?case
  proof (cases "is_digit c")
    case False
    then show ?thesis using IH by (simp add: Let_def)
  next
    case True
    with Cons.prems have pne: "p \<noteq> []" by auto
    with Cons.prems have nl: "\<not> is_digit (last p)" by auto
    define r where "r = dropWhile is_digit (c # p @ ds)"
    have lp: "last p \<in> set p" using pne by simp
    have "dropWhile is_digit (p @ ds) = dropWhile is_digit p @ ds"
      using lp nl by (rule dropWhile_append1)
    moreover have "dropWhile is_digit p \<noteq> []"
      using lp nl by (auto simp: dropWhile_eq_Nil_conv)
    ultimately have "length r \<ge> 2" using True \<open>ds \<noteq> []\<close>
      by (cases "dropWhile is_digit p"; cases ds) (auto simp: r_def)
    then have rr: "\<not> (r = [] \<or> r = [CHR 0x0A])" by auto
    have "search_digits_end (c # p @ ds) =
        (if takeWhile is_digit (c # p @ ds) \<noteq> [] \<and> (r = [] \<or> r = [CHR 0x0A])
         then Some (takeWhile is_digit (c # p @ ds)) else search_digits_end (p @ ds))"
      unfolding r_def by (simp only: search_digits_end.simps Let_def)
    also have "\<dots> = search_digits_end (p @ ds)"
      using rr by simp
    finally show ?thesis using IH by simp
  qed
qed

declare str_nat.simps [simp del]

lemma digit_val_zero: "digit_val CHR ''0'' = 0"
  by (simp add: digit_val_def code_simps)

lemma digit_val_range: "is_digit c \<Longrightarrow> 0 \<le> digit_val c \<and> digit_val c \<le> 9"
  by (auto simp: is_digit_def digit_val_def)

lemma digit_val_pos: "is_digit c \<Longrightarrow> c \<noteq> CHR ''0'' \<Longrightarrow> 0 < digit_val c"
proof -
  assume d: "is_digit c" and nz: "c \<noteq> CHR ''0''"
  have "code c \<noteq> 48" using nz code_inj [of c "CHR ''0''"] by (auto simp: code_simps)
  with d show ?thesis by (auto simp: is_digit_def digit_val_def)
qed

lemma digit_char_val: "is_digit c \<Longrightarrow> digit_char (nat (digit_val c)) = c"
proof -
  assume "is_digit c"
  then have "48 + nat (digit_val c) = of_char c"
    by (auto simp: is_digit_def digit_val_def code_def)
  then show ?thesis by (simp add: digit_char_def)
qed

lemma int_of_digits_snoc: "int_of_digits (ds @ [c]) = 10 * int_of_digits ds + digit_val c"
  by (simp add: int_of_digits_def)

lemma int_of_digits_nonneg: "list_all is_digit ds \<Longrightarrow> 0 \<le> int_of_digits ds"
proof (induction ds rule: rev_induct)
  case Nil
  then show ?case by (simp add: int_of_digits_def)
next
  case (snoc c ds)
  then show ?case using digit_val_range [of c] by (simp add: int_of_digits_snoc)
qed

lemma int_of_digits_pos:
  "ds \<noteq> [] \<Longrightarrow> list_all is_digit ds \<Longrightarrow> hd ds \<noteq> CHR ''0'' \<Longrightarrow> 0 < int_of_digits ds"
proof (induction ds rule: rev_induct)
  case Nil
  then show ?case by simp
next
  case (snoc c ds)
  show ?case
  proof (cases "ds = []")
    case True
    with snoc.prems show ?thesis
      using digit_val_pos [of c] by (simp add: int_of_digits_def)
  next
    case False
    with snoc have "0 < int_of_digits ds" by simp
    then show ?thesis using snoc.prems digit_val_range [of c] by (simp add: int_of_digits_snoc)
  qed
qed

lemma int_of_digits_zeros: "int_of_digits (replicate k CHR ''0'' @ ds) = int_of_digits ds"
proof -
  have "foldl (\<lambda>a c. 10 * a + digit_val c) 0 (replicate k CHR ''0'') = 0"
    by (induction k) (simp_all add: digit_val_zero)
  then show ?thesis by (simp add: int_of_digits_def)
qed

lemma str_nat_digit: "n < 10 \<Longrightarrow> str_nat n = [digit_char n]"
  by (simp add: str_nat.simps)

lemma str_nat_snoc: "0 < m \<Longrightarrow> d < 10 \<Longrightarrow> str_nat (10 * m + d) = str_nat m @ [digit_char d]"
  by (subst str_nat.simps) simp

lemma str_int_of_digits:
  assumes "ds \<noteq> []" "list_all is_digit ds" "hd ds \<noteq> CHR ''0'' \<or> ds = ''0''"
  shows "str_int (int_of_digits ds) = ds"
  using assms
proof (induction ds rule: rev_induct)
  case Nil
  then show ?case by simp
next
  case (snoc c ds)
  have dc: "is_digit c" using snoc.prems by simp
  have nn: "0 \<le> int_of_digits (ds @ [c])"
    using snoc.prems by (intro int_of_digits_nonneg)
  show ?case
  proof (cases "ds = []")
    case True
    have "nat (digit_val c) < 10" using digit_val_range [OF dc] by auto
    then show ?thesis using True dc digit_val_range [OF dc]
      by (simp add: int_of_digits_def str_int_def str_nat_digit digit_char_val)
  next
    case False
    with snoc.prems have h: "hd ds \<noteq> CHR ''0''" and dd: "list_all is_digit ds" by auto
    have pos: "0 < int_of_digits ds" using False dd h by (rule int_of_digits_pos)
    have IH: "str_nat (nat (int_of_digits ds)) = ds"
      using snoc.IH [OF False dd] h pos by (simp add: str_int_def)
    have "nat (int_of_digits (ds @ [c])) = 10 * nat (int_of_digits ds) + nat (digit_val c)"
      using pos digit_val_range [OF dc] by (simp add: int_of_digits_snoc nat_add_distrib nat_mult_distrib)
    moreover have "0 < nat (int_of_digits ds)" using pos by simp
    moreover have "nat (digit_val c) < 10" using digit_val_range [OF dc] by auto
    ultimately have "str_nat (nat (int_of_digits (ds @ [c]))) = ds @ [c]"
      using IH by (simp add: str_nat_snoc digit_char_val [OF dc])
    then show ?thesis using nn by (simp add: str_int_def)
  qed
qed

lemma parse_part_range:
  assumes "CHR ''-'' \<notin> set start" "CHR ''-'' \<notin> set end'"
    and "search_digits_end start = Some start_num" "search_digits_end end' = Some end_num"
  shows "parse_part (start @ CHR ''-'' # end') =
     Inr (map (\<lambda>num. take (length start - length start_num) start @ str_int num)
            [int_of_digits start_num .. int_of_digits end_num])"
proof -
  have "split_on CHR ''-'' (start @ CHR ''-'' # end') = [start, end']"
    using assms(1,2) by (simp add: split_on_append split_on_no_sep)
  then show ?thesis using assms(3,4) by (simp add: parse_part_def)
qed

lemma parse_part_range_digits:
  assumes "list_all is_word p" "list_all is_word q"
    and "ds \<noteq> []" "list_all is_digit ds" "p = [] \<or> \<not> is_digit (last p)"
    and "es \<noteq> []" "list_all is_digit es" "q = [] \<or> \<not> is_digit (last q)"
  shows "parse_part (p @ ds @ CHR ''-'' # q @ es) =
     Inr (map (\<lambda>num. p @ str_int num) [int_of_digits ds .. int_of_digits es])"
proof -
  have nh: "\<And>s. list_all is_word s \<Longrightarrow> CHR ''-'' \<notin> set s"
    using word_not_hyphen by (auto simp: list_all_iff)
  have wd: "\<And>s. list_all is_digit s \<Longrightarrow> list_all is_word s"
    using digit_is_word by (auto simp: list_all_iff)
  have 1: "CHR ''-'' \<notin> set (p @ ds)" using nh [OF assms(1)] nh [OF wd [OF assms(4)]] by simp
  have 2: "CHR ''-'' \<notin> set (q @ es)" using nh [OF assms(2)] nh [OF wd [OF assms(7)]] by simp
  have 3: "search_digits_end (p @ ds) = Some ds"
    using assms(3,4,5) by (rule search_digits_end_suffix)
  have 4: "search_digits_end (q @ es) = Some es"
    using assms(6,7,8) by (rule search_digits_end_suffix)
  show ?thesis using parse_part_range [OF 1 2 3 4] by simp
qed

lemma join_commas_Cons: "join_commas (t # ts) = t @ concat (map ((#) CHR '','') ts)"
  by (induction ts arbitrary: t) auto

lemma takeWhile_stop:
  "X = [] \<or> \<not> P (hd X) \<Longrightarrow> takeWhile P X = [] \<and> dropWhile P X = X"
  by (cases X) auto

lemma takeWhile_run:
  "list_all P t \<Longrightarrow> X = [] \<or> \<not> P (hd X) \<Longrightarrow> takeWhile P (t @ X) = t \<and> dropWhile P (t @ X) = X"
  by (induction t) (simp_all add: takeWhile_stop)

lemma comma_parts_stops:
  assumes st: "stops rest"
  shows "comma_parts rest = ([], rest)"
proof (cases rest)
  case Nil
  then show ?thesis by simp
next
  case (Cons c cs)
  show ?thesis
  proof (cases "c = CHR '',''")
    case True
    with Cons st have "cs = [] \<or> \<not> is_word_or_hyphen (hd cs)"
      by (auto simp: stops_def)
    then have "takeWhile is_word_or_hyphen cs = []" using takeWhile_stop by blast
    then show ?thesis using Cons by simp
  next
    case False
    then show ?thesis using Cons by simp
  qed
qed

lemma comma_parts_tokens:
  assumes "list_all is_token ts" "stops rest"
  shows "comma_parts (concat (map ((#) CHR '','') ts) @ rest) = (concat (map ((#) CHR '','') ts), rest)"
  using assms
proof (induction ts)
  case Nil
  then show ?case by (simp add: comma_parts_stops)
next
  case (Cons t ts)
  let ?X = "concat (map ((#) CHR '','') ts) @ rest"
  have t: "t \<noteq> []" "list_all is_word_or_hyphen t" using Cons.prems by (auto simp: is_token_def)
  have X: "?X = [] \<or> \<not> is_word_or_hyphen (hd ?X)"
  proof (cases ts)
    case Nil
    then show ?thesis using Cons.prems(2) by (auto simp: stops_def)
  next
    case (Cons u us)
    then show ?thesis using word_or_hyphen_not_sep [of "CHR '',''"] by auto
  qed
  have tw: "takeWhile is_word_or_hyphen (t @ ?X) = t" "dropWhile is_word_or_hyphen (t @ ?X) = ?X"
    using takeWhile_run [OF t(2) X] by auto
  have IH: "comma_parts ?X = (concat (map ((#) CHR '','') ts), rest)"
    using Cons by simp
  show ?case using tw t(1) IH by simp
qed

lemma match_here_group:
  assumes "word_boundary prev (Some k)" "k \<in> set ''LSM''" "list_all is_space sp"
    and "ts \<noteq> []" "list_all is_token ts" "stops rest"
  shows "match_here prev (k # CHR '':'' # sp @ join_commas ts @ rest) =
     Some (([k], join_commas ts), last (join_commas ts), rest)"
proof -
  obtain t us where ts: "ts = t # us" using assms(4) by (cases ts) auto
  let ?C = "concat (map ((#) CHR '','') us)"
  have j: "join_commas ts = t @ ?C" by (simp add: ts join_commas_Cons)
  have t: "t \<noteq> []" "list_all is_word_or_hyphen t" and us: "list_all is_token us"
    using assms(5) ts by (auto simp: is_token_def)
  have "\<not> is_space (hd t)" using t word_or_hyphen_not_sep [of "hd t"] by (cases t) auto
  then have sp: "dropWhile is_space (sp @ t @ ?C @ rest) = t @ ?C @ rest"
    using takeWhile_run [OF assms(3), of "t @ ?C @ rest"] t(1) by simp
  have X: "?C @ rest = [] \<or> \<not> is_word_or_hyphen (hd (?C @ rest))"
  proof (cases us)
    case Nil
    then show ?thesis using assms(6) by (auto simp: stops_def)
  next
    case (Cons u vs)
    then show ?thesis using word_or_hyphen_not_sep [of "CHR '',''"] by auto
  qed
  have tw: "takeWhile is_word_or_hyphen (t @ ?C @ rest) = t"
    "dropWhile is_word_or_hyphen (t @ ?C @ rest) = ?C @ rest"
    using takeWhile_run [OF t(2) X] by auto
  have cp: "comma_parts (?C @ rest) = (?C, rest)"
    using us assms(6) by (rule comma_parts_tokens)
  show ?thesis
    using assms(1,2) sp tw cp t(1) by (simp add: match_here_def j Let_def)
qed

lemma match_here_no_colon: "CHR '':'' \<notin> set s \<Longrightarrow> match_here prev s = None"
  by (auto simp: match_here_def split: list.splits)

lemma findall_from_no_colon: "CHR '':'' \<notin> set s \<Longrightarrow> findall_from prev s = []"
proof (induction s arbitrary: prev)
  case Nil
  then show ?case by simp
next
  case (Cons c cs)
  have "match_here prev (c # cs) = None" using Cons.prems by (rule match_here_no_colon)
  moreover have "findall_from (Some c) cs = []" using Cons by simp
  ultimately show ?case by simp
qed

lemma findall_group:
  assumes "k \<in> set ''LSM''" "list_all is_space sp" "ts \<noteq> []" "list_all is_token ts"
    and "stops rest" "CHR '':'' \<notin> set rest"
  shows "findall (k # CHR '':'' # sp @ join_commas ts @ rest) = [([k], join_commas ts)]"
proof -
  have "is_word k" using assms(1) by (auto simp: is_word_def is_alnum_def code_def)
  then have wb: "word_boundary None (Some k)" by (simp add: word_boundary_def)
  show ?thesis
    using match_here_group [OF wb assms(1,2,3,4,5)] findall_from_no_colon [OF assms(6)]
    by (simp add: findall_def)
qed

lemma split_on_join_commas:
  "ts \<noteq> [] \<Longrightarrow> list_all is_token ts \<Longrightarrow> split_on CHR '','' (join_commas ts) = ts"
proof (induction ts rule: join_commas.induct)
  case 1
  then show ?case by simp
next
  case (2 t)
  then have "CHR '','' \<notin> set t"
    using word_or_hyphen_not_sep by (auto simp: is_token_def list_all_iff)
  then show ?case by (simp add: split_on_no_sep)
next
  case (3 t u us)
  then have "CHR '','' \<notin> set t"
    using word_or_hyphen_not_sep by (auto simp: is_token_def list_all_iff)
  then show ?case using 3 by (simp add: split_on_append)
qed

lemma parse_accession_ids_group:
  assumes "k \<in> set ''LSM''" "list_all is_space sp" "ts \<noteq> []" "list_all is_token ts"
    and "stops rest" "CHR '':'' \<notin> set rest" "segment = ''all'' \<or> segment = [k]"
  shows "parse_accession_ids (k # CHR '':'' # sp @ join_commas ts @ rest) segment =
     (case parse_parts [] ts of Inl e \<Rightarrow> Inl e | Inr ids \<Rightarrow> Inr [([k], ids)])"
proof -
  have f: "findall (k # CHR '':'' # sp @ join_commas ts @ rest) = [([k], join_commas ts)]"
    using assms(1-6) by (rule findall_group)
  have s: "split_on CHR '','' (join_commas ts) = ts"
    using assms(3,4) by (rule split_on_join_commas)
  show ?thesis using assms(7)
    by (auto simp: parse_accession_ids_def f s split: sum.splits)
qed

lemma range_token_is_token:
  assumes "list_all is_word p" "list_all is_word q" "list_all is_digit ds" "list_all is_digit es"
  shows "is_token (p @ ds @ CHR ''-'' # q @ es)"
  using assms digit_is_word word_is_word_or_hyphen
  by (auto simp: is_token_def list_all_iff is_word_or_hyphen_def)

lemma parse_accession_ids_range:
  assumes "k \<in> set ''LSM''" "list_all is_space sp" "segment = ''all'' \<or> segment = [k]"
    and "list_all is_word p" "list_all is_word q"
    and "ds \<noteq> []" "list_all is_digit ds" "p = [] \<or> \<not> is_digit (last p)"
    and "es \<noteq> []" "list_all is_digit es" "q = [] \<or> \<not> is_digit (last q)"
  shows "parse_accession_ids (k # CHR '':'' # sp @ p @ ds @ CHR ''-'' # q @ es) segment =
     Inr [([k], map (\<lambda>num. p @ str_int num) [int_of_digits ds .. int_of_digits es])]"
proof -
  let ?tok = "p @ ds @ CHR ''-'' # q @ es"
  have tok: "list_all is_token [?tok]"
    using range_token_is_token [OF assms(4,5,7,10)] by simp
  have pp: "parse_part ?tok =
      Inr (map (\<lambda>num. p @ str_int num) [int_of_digits ds .. int_of_digits es])"
    using assms(4-11) by (rule parse_part_range_digits)
  have "parse_accession_ids (k # CHR '':'' # sp @ join_commas [?tok] @ []) segment =
     (case parse_parts [] [?tok] of Inl e \<Rightarrow> Inl e | Inr ids \<Rightarrow> Inr [([k], ids)])"
    using assms(1,2) _ tok _ _ assms(3) by (rule parse_accession_ids_group) (simp_all add: stops_def)
  then show ?thesis using pp by simp
qed

lemma upto_hd_last: "(a::int) \<le> b \<Longrightarrow> hd [a..b] = a \<and> last [a..b] = b \<and> [a..b] \<noteq> []"
proof -
  assume le: "a \<le> b"
  have 1: "[a..b] = a # [a + 1..b]" using le by (rule upto_rec1)
  have 2: "[a..b] = [a..b - 1] @ [b]" using le by (rule upto_rec2)
  have "hd [a..b] = a" by (subst 1) simp
  moreover have "last [a..b] = b" by (subst 2) simp
  moreover have "[a..b] \<noteq> []" by (subst 1) simp
  ultimately show ?thesis by simp
qed

lemma space_stops: "is_space w \<Longrightarrow> stops (CHR '','' # w # rest)"
  using word_or_hyphen_not_sep [of w] word_or_hyphen_not_sep [of "CHR '',''"]
  by (auto simp: stops_def)

lemma space_not_colon: "is_space w \<Longrightarrow> w \<noteq> CHR '':''"
  by (auto simp: is_space_def Let_def code_simps)

lemma parse_parts_skip:
  "parse_part tok = Inr [] \<Longrightarrow> parse_parts ids (pre @ tok # post) = parse_parts ids (pre @ post)"
  by (induction pre arbitrary: ids) (auto split: sum.splits)

lemma parse_pairs_distinct:
  "parse_pairs segment d ps = Inr d' \<Longrightarrow> distinct (map fst d) \<Longrightarrow> distinct (map fst d')"
  by (induction segment d ps rule: parse_pairs.induct)
     (auto split: if_splits sum.splits simp: distinct_update)

lemma parse_pairs_untouched:
  "parse_pairs segment d qs = Inr d' \<Longrightarrow> k \<notin> fst ` set qs \<Longrightarrow> map_of d' k = map_of d k"
  by (induction segment d qs rule: parse_pairs.induct)
     (auto split: if_splits sum.splits simp: update_conv')

lemma parse_pairs_last:
  assumes "parse_pairs segment d (ps @ (k, g) # qs) = Inr d'" "k \<notin> fst ` set qs"
    and "segment = ''all'' \<or> segment = k"
  shows "\<exists>ids. parse_parts [] (split_on CHR '','' g) = Inr ids \<and> map_of d' k = Some ids"
  using assms(1)
proof (induction ps arbitrary: d)
  case Nil
  then obtain ids where i: "parse_parts [] (split_on CHR '','' g) = Inr ids"
    and r: "parse_pairs segment (AList.update k ids d) qs = Inr d'"
    using assms(3) by (auto split: sum.splits if_splits)
  have "map_of d' k = map_of (AList.update k ids d) k"
    using r assms(2) by (rule parse_pairs_untouched)
  then show ?case using i by (simp add: update_conv')
next
  case (Cons a ps)
  obtain key grp where a: "a = (key, grp)" by (cases a)
  show ?case
  proof (cases "segment \<noteq> ''all'' \<and> key \<noteq> segment")
    case True
    then have "parse_pairs segment d (ps @ (k, g) # qs) = Inr d'"
      using Cons.prems a by simp
    then show ?thesis by (rule Cons.IH)
  next
    case False
    then obtain ids where "parse_pairs segment (AList.update key ids d) (ps @ (k, g) # qs) = Inr d'"
      using Cons.prems a by (auto split: sum.splits)
    then show ?thesis by (rule Cons.IH)
  qed
qed

lemma sub_spaces_spec_collapse: "sub_spaces s = spec_collapse s"
  by (induction s rule: spec_collapse.induct) simp_all

lemma sanitize_filename_spec:
  "CHR ''_'' \<notin> set s \<Longrightarrow> sanitize_filename s = spec_sanitize s"
proof -
  assume "CHR ''_'' \<notin> set s"
  then have "strip_special s = spec_strip s"
    by (auto simp: strip_special_def spec_strip_def is_word_def intro!: filter_cong)
  then show ?thesis
    by (simp add: sanitize_filename_def spec_sanitize_def sub_spaces_spec_collapse)
qed

lemma write_accs_eq:
  "write_accs sequences f accs = f @ map the (filter (\<lambda>x. x \<noteq> None) (map sequences accs))"
  by (induction accs arbitrary: f) (auto split: option.splits)

lemma write_keys_eq:
  "write_keys sequences f acc_dict =
     f @ map the (filter (\<lambda>x. x \<noteq> None) (map sequences (concat (map snd acc_dict))))"
  by (induction sequences f acc_dict rule: write_keys.induct) (simp_all add: write_accs_eq)

lemma to_dict_duplicate:
  "\<not> distinct (map key_function fasta) \<or> key_function ` set fasta \<inter> fst ` set d \<noteq> {} \<Longrightarrow>
   \<exists>k. to_dict d fasta = Inl (ValueError_duplicate_key k) \<and> k \<in> key_function ` set fasta"
proof (induction fasta arbitrary: d)
  case Nil
  then show ?case by simp
next
  case (Cons r rs)
  show ?case
  proof (cases "map_of d (key_function r) \<noteq> None")
    case True
    then show ?thesis by (auto simp: Let_def)
  next
    case False
    then have nd: "key_function r \<notin> fst ` set d" by (simp add: map_of_eq_None_iff)
    have "\<not> distinct (map key_function rs) \<or>
        key_function ` set rs \<inter> fst ` set (d @ [(key_function r, r)]) \<noteq> {}"
      using Cons.prems nd by auto
    then obtain k where "to_dict (d @ [(key_function r, r)]) rs = Inl (ValueError_duplicate_key k)"
      and "k \<in> key_function ` set rs"
      using Cons.IH by blast
    then show ?thesis using False by (auto simp: Let_def)
  qed
qed

lemma to_dict_distinct:
  "distinct (map key_function fasta) \<Longrightarrow> key_function ` set fasta \<inter> fst ` set d = {} \<Longrightarrow>
   to_dict d fasta = Inr (d @ map (\<lambda>r. (key_function r, r)) fasta)"
proof (induction fasta arbitrary: d)
  case Nil
  then show ?case by simp
next
  case (Cons r rs)
  have nd: "map_of d (key_function r) = None"
    using Cons.prems(2) by (auto simp: map_of_eq_None_iff)
  have "to_dict (d @ [(key_function r, r)]) rs =
      Inr ((d @ [(key_function r, r)]) @ map (\<lambda>r. (key_function r, r)) rs)"
    using Cons.prems by (intro Cons.IH) auto
  then show ?case using nd by (simp add: Let_def)
qed

lemma read_fasta_sequences_distinct:
  "distinct (map key_function fasta) \<Longrightarrow>
   read_fasta_sequences fasta accessions =
     Inr (map_of (map (\<lambda>r. (key_function r, r)) fasta) |` accessions)"
  by (simp add: read_fasta_sequences_def to_dict_distinct)

lemma collect_accessions_parsed:
  "collect_accessions segment df = Inr accessions \<Longrightarrow> r \<in> set df \<Longrightarrow>
   \<exists>acc_dict. parse_accession_ids (accession r) segment = Inr acc_dict
      \<and> set (concat (map snd acc_dict)) \<subseteq> accessions"
proof (induction df arbitrary: accessions)
  case Nil
  then show ?case by simp
next
  case (Cons x xs)
  from Cons.prems(1) obtain d A where
    d: "parse_accession_ids (accession x) segment = Inr d"
    and A: "collect_accessions segment xs = Inr A"
    and acc: "accessions = set (concat (map snd d)) \<union> A"
    by (auto split: sum.splits)
  show ?case
  proof (cases "r = x")
    case True
    then show ?thesis using d acc by auto
  next
    case False
    then have "r \<in> set xs" using Cons.prems(2) by simp
    then obtain acc_dict where "parse_accession_ids (accession r) segment = Inr acc_dict"
      and "set (concat (map snd acc_dict)) \<subseteq> A"
      using Cons.IH [OF A] by blast
    then show ?thesis using acc by auto
  qed
qed

lemma parse_pairs_keys:
  "parse_pairs segment d ps = Inr d' \<Longrightarrow> segment \<noteq> ''all'' \<Longrightarrow>
   fst ` set d' \<subseteq> fst ` set d \<union> {segment}"
proof (induction segment d ps arbitrary: d' rule: parse_pairs.induct)
  case (1 segment acc_dict)
  then show ?case by auto
next
  case (2 segment acc_dict key grp rest)
  show ?case
  proof (cases "key \<noteq> segment")
    case True
    then show ?thesis using 2 by simp
  next
    case False
    then obtain ids where i: "parse_parts [] (split_on CHR '','' grp) = Inr ids"
      and r: "parse_pairs segment (AList.update key ids acc_dict) rest = Inr d'"
      using "2.prems" by (auto split: sum.splits)
    have "fst ` set d' \<subseteq> fst ` set (AList.update key ids acc_dict) \<union> {segment}"
      using "2.IH"(2) [OF _ i r] False "2.prems"(2) by simp
    moreover have "fst ` set (AList.update key ids acc_dict) = {key} \<union> fst ` set acc_dict"
      by (rule dom_update)
    ultimately show ?thesis using False by auto
  qed
qed

lemma parse_accession_ids_keys:
  "parse_accession_ids accession_str segment = Inr d \<Longrightarrow> segment \<noteq> ''all'' \<Longrightarrow>
   fst ` set d \<subseteq> {segment}"
  using parse_pairs_keys [of segment "[]" "findall accession_str" d]
  by (simp add: parse_accession_ids_def)

lemma str_int_no_padding:
  "0 < n \<Longrightarrow> hd (str_int n) \<noteq> CHR ''0''"
proof -
  have *: "0 < m \<Longrightarrow> str_nat m \<noteq> [] \<and> hd (str_nat m) \<noteq> CHR ''0''" for m
  proof (induction m rule: str_nat.induct)
    case (1 m)
    show ?case
    proof (cases "m < 10")
      case True
      have "48 + m < 256" using True by simp
      then have "of_char (digit_char m) = 48 + m"
        by (simp add: digit_char_def)
      then have "digit_char m \<noteq> CHR ''0''" using "1.prems" by auto
      then show ?thesis using True by (simp add: str_nat.simps [of m])
    next
      case False
      then have "0 < m div 10" by simp
      then have "str_nat (m div 10) \<noteq> [] \<and> hd (str_nat (m div 10)) \<noteq> CHR ''0''"
        using "1.IH" False by simp
      then show ?thesis using False by (simp add: str_nat.simps [of m])
    qed
  qed
  assume "0 < n"
  then show ?thesis using * [of "nat n"] by (simp add: str_int_def)
qed

lemma to_dict_append:
  "to_dict d (xs @ ys) = (case to_dict d xs of Inl e \<Rightarrow> Inl e | Inr d' \<Rightarrow> to_dict d' ys)"
  by (induction xs arbitrary: d) (simp_all add: Let_def)

lemma read_fasta_sequences_first_duplicate:
  assumes "distinct (map key_function xs)" "key_function r \<in> key_function ` set xs"
  shows "read_fasta_sequences (xs @ r # ys) accessions =
     Inl (ValueError_duplicate_key (key_function r))"
proof -
  have "to_dict [] xs = Inr ([] @ map (\<lambda>r. (key_function r, r)) xs)"
    using assms(1) by (intro to_dict_distinct) simp_all
  moreover have "map_of (map (\<lambda>r. (key_function r, r)) xs) (key_function r) \<noteq> None"
    using assms(2) by (auto simp: map_of_eq_None_iff image_image)
  ultimately have "to_dict [] (xs @ r # ys) = Inl (ValueError_duplicate_key (key_function r))"
    by (simp add: to_dict_append Let_def)
  then show ?thesis by (simp add: read_fasta_sequences_def)
qed

lemma parse_pairs_skip_reversed:
  assumes "parse_part tok = Inr []" "is_token tok" "list_all is_token pre" "list_all is_token post"
    and "segment = ''all'' \<or> segment = key"
  shows "parse_pairs segment acc_dict ((key, join_commas (pre @ tok # post)) # rest) =
     (case parse_parts [] (pre @ post) of
        Inl e \<Rightarrow> Inl e
      | Inr ids \<Rightarrow> parse_pairs segment (AList.update key ids acc_dict) rest)"
proof -
  have "list_all is_token (pre @ tok # post)" using assms(2,3,4) by simp
  then have "split_on CHR '','' (join_commas (pre @ tok # post)) = pre @ tok # post"
    by (intro split_on_join_commas) simp_all
  then show ?thesis using assms(1,5) by (auto simp: parse_parts_skip)
qed

lemma group_records_parsed:
  "parse_accession_ids (accession r) segment = Inr acc_dict \<Longrightarrow>
   group_records sequences segment r =
     map the (filter (\<lambda>x. x \<noteq> None) (map sequences (concat (map snd acc_dict))))"
  by (simp add: group_records_def)

lemma write_rows_result:
  assumes "\<forall>x\<in>set df. \<not> isl (parse_accession_ids (accession x) segment)"
    and "\<forall>x\<in>set df. \<forall>fs. open_w env fs (filepath_of output_folder segment x) = None"
  shows "write_rows env sequences output_folder segment files df =
     Inr (foldl (\<lambda>fs x. AList.update (filepath_of output_folder segment x)
                          (group_records sequences segment x) fs) files df)"
  using assms
proof (induction df arbitrary: files)
  case Nil
  then show ?case by simp
next
  case (Cons r rs)
  obtain d where d: "parse_accession_ids (accession r) segment = Inr d"
    using Cons.prems(1) by (cases "parse_accession_ids (accession r) segment") auto
  have o: "open_w env files (filepath_of output_folder segment r) = None"
    using Cons.prems(2) by simp
  have g: "write_keys sequences [] d = group_records sequences segment r"
    using d by (simp add: write_keys_eq group_records_def)
  have "write_rows env sequences output_folder segment
          (AList.update (filepath_of output_folder segment r) (group_records sequences segment r) files) rs =
        Inr (foldl (\<lambda>fs x. AList.update (filepath_of output_folder segment x)
                          (group_records sequences segment x) fs)
              (AList.update (filepath_of output_folder segment r) (group_records sequences segment r) files) rs)"
    using Cons.prems by (intro Cons.IH) simp_all
  then show ?case using d o g by (simp add: Let_def)
qed

lemma map_of_foldl_update_other:
  "k \<notin> p ` set xs \<Longrightarrow>
   map_of (foldl (\<lambda>fs x. AList.update (p x) (c x) fs) files xs) k = map_of files k"
  by (induction xs arbitrary: files) (simp_all add: update_conv')

lemma map_of_foldl_update_last:
  assumes "p r \<notin> p ` set post"
  shows "map_of (foldl (\<lambda>fs x. AList.update (p x) (c x) fs) files (pre @ r # post)) (p r) = Some (c r)"
proof -
  have "map_of (foldl (\<lambda>fs x. AList.update (p x) (c x) fs) files (pre @ r # post)) (p r) =
      map_of (AList.update (p r) (c r) (foldl (\<lambda>fs x. AList.update (p x) (c x) fs) files pre)) (p r)"
    using map_of_foldl_update_other [OF assms] by simp
  then show ?thesis by (simp add: update_conv')
qed

lemma write_fasta_files_content:
  assumes "os_path_exists env output_folder \<or> os_makedirs env output_folder = None"
    and "\<forall>x\<in>set df. \<not> isl (parse_accession_ids (accession x) segment)"
    and "\<forall>x\<in>set df. \<forall>fs. open_w env fs (filepath_of output_folder segment x) = None"
  shows "write_fasta_files env df sequences output_folder segment files =
     Inr (foldl (\<lambda>fs x. AList.update (filepath_of output_folder segment x)
                          (group_records sequences segment x) fs) files df)"
  using assms(1) write_rows_result [OF assms(2,3)]
  by (auto simp: write_fasta_files_def)

lemma write_fasta_files_empty_folder:
  "write_fasta_files env df sequences [] segment files = Inl (OSError FileNotFoundError)"
  by (simp add: write_fasta_files_def os_path_exists_def os_makedirs_def has_null_def)

lemma write_rows_failure:
  "write_rows env sequences output_folder segment files df = Inl e \<Longrightarrow>
   (\<exists>x\<in>set df. parse_accession_ids (accession x) segment = Inl e)
   \<or> (\<exists>x\<in>set df. \<exists>fs. open_w env fs (filepath_of output_folder segment x) = Some e)"
proof (induction df arbitrary: files)
  case Nil
  then show ?case by simp
next
  case (Cons r rs)
  show ?case
  proof (cases "parse_accession_ids (accession r) segment")
    case (Inl e')
    then show ?thesis using Cons.prems by auto
  next
    case (Inr d)
    show ?thesis
    proof (cases "open_w env files (filepath_of output_folder segment r)")
      case (Some e')
      then have "e' = e" using Cons.prems Inr by (simp add: Let_def)
      then show ?thesis using Some by auto
    next
      case None
      then have "write_rows env sequences output_folder segment
          (AList.update (filepath_of output_folder segment r) (write_keys sequences [] d) files) rs = Inl e"
        using Cons.prems Inr by (simp add: Let_def)
      from Cons.IH [OF this] show ?thesis by auto
    qed
  qed
qed

lemma write_fasta_files_failure:
  assumes "write_fasta_files env df sequences output_folder segment files = Inl e"
  shows "(\<not> os_path_exists env output_folder \<and> os_makedirs env output_folder = Some e)
   \<or> (\<exists>x\<in>set df. parse_accession_ids (accession x) segment = Inl e)
   \<or> (\<exists>x\<in>set df. \<exists>fs. open_w env fs (filepath_of output_folder segment x) = Some e)"
proof (cases "\<not> os_path_exists env output_folder \<and> os_makedirs env output_folder \<noteq> None")
  case True
  then show ?thesis using assms by (auto simp: write_fasta_files_def)
next
  case False
  then have "write_rows env sequences output_folder segment files df = Inl e"
    using assms by (auto simp: write_fasta_files_def split: if_splits)
  from write_rows_failure [OF this] show ?thesis by blast
qed

lemma main_row_content:
  assumes "collect_accessions segment df = Inr accessions"
    and "to_dict [] fasta = Inr records"
    and "os_path_exists env output_folder \<or> os_makedirs env output_folder = None"
    and "\<forall>x\<in>set df. \<forall>fs. open_w env fs (filepath_of output_folder segment x) = None"
    and "df = pre @ r # post"
    and "filepath_of output_folder segment r \<notin> filepath_of output_folder segment ` set post"
    and "parse_accession_ids (accession r) segment = Inr acc_dict"
  shows "\<exists>files'. main env df fasta output_folder segment files = Inr files'
       \<and> map_of files' (filepath_of output_folder segment r) =
           Some (map the (filter (\<lambda>x. x \<noteq> None) (map (map_of records) (concat (map snd acc_dict)))))"
proof -
  let ?seqs = "map_of records |` accessions"
  let ?p = "filepath_of output_folder segment" and ?c = "group_records ?seqs segment"
  have rd: "read_fasta_sequences fasta accessions = Inr ?seqs"
    using assms(2) by (simp add: read_fasta_sequences_def)
  have m: "main env df fasta output_folder segment files =
      write_fasta_files env df ?seqs output_folder segment files"
    using assms(1) rd by (simp add: main_def)
  have all: "\<forall>x\<in>set df. \<not> isl (parse_accession_ids (accession x) segment)"
    using collect_accessions_parsed [OF assms(1)] by fastforce
  have w: "write_fasta_files env df ?seqs output_folder segment files =
      Inr (foldl (\<lambda>fs x. AList.update (?p x) (?c x) fs) files df)"
    using assms(3) all assms(4) by (rule write_fasta_files_content)
  have rin: "r \<in> set df" using assms(5) by simp
  have sub: "set (concat (map snd acc_dict)) \<subseteq> accessions"
    using collect_accessions_parsed [OF assms(1) rin] assms(7) by auto
  have eq: "map ?seqs (concat (map snd acc_dict)) = map (map_of records) (concat (map snd acc_dict))"
    using sub by (intro map_cong) (auto simp: restrict_map_def)
  have g: "?c r = map the (filter (\<lambda>x. x \<noteq> None) (map (map_of records) (concat (map snd acc_dict))))"
    using group_records_parsed [OF assms(7), of ?seqs] by (simp only: eq)
  have "map_of (foldl (\<lambda>fs x. AList.update (?p x) (?c x) fs) files (pre @ r # post)) (?p r) = Some (?c r)"
    using assms(6) by (rule map_of_foldl_update_last)
  then have "map_of (foldl (\<lambda>fs x. AList.update (?p x) (?c x) fs) files df) (?p r) =
      Some (map the (filter (\<lambda>x. x \<noteq> None) (map (map_of records) (concat (map snd acc_dict)))))"
    using assms(5) g by simp
  then show ?thesis using m w by simp
qed

section \<open>The claims\<close>

text \<open>
  C1 (as amended). A range token whose start identifier carries leading zeros loses the
  padding: whatever the number of zeros, every identifier is the start's prefix followed
  by the plain decimal form of the integer. The range \<open>PREFIX007-PREFIX010\<close>
  gives \<open>PREFIX7, PREFIX8, PREFIX9, PREFIX10\<close>.
\<close>

theorem range_expansion_drops_padding:
  assumes "k \<in> set ''LSM''" "list_all is_space sp" "segment = ''all'' \<or> segment = [k]"
    and "list_all is_word p" "p = [] \<or> \<not> is_digit (last p)"
    and "list_all is_word q" "q = [] \<or> \<not> is_digit (last q)"
    and "0 < z" "list_all is_digit ds"
    and "es \<noteq> []" "list_all is_digit es"
  shows "parse_accession_ids
           (k # CHR '':'' # sp @ p @ (replicate z CHR ''0'' @ ds) @ CHR ''-'' # q @ es) segment =
         Inr [([k], map (\<lambda>num. p @ str_int num) [int_of_digits ds .. int_of_digits es])]"
proof -
  let ?zs = "replicate z CHR ''0'' @ ds"
  have ne: "?zs \<noteq> []" using assms(8) by simp
  have "is_digit CHR ''0''" by (simp add: is_digit_def code_simps)
  then have dg: "list_all is_digit ?zs" using assms(9) by (auto simp: list_all_iff)
  have "parse_accession_ids (k # CHR '':'' # sp @ p @ ?zs @ CHR ''-'' # q @ es) segment =
     Inr [([k], map (\<lambda>num. p @ str_int num) [int_of_digits ?zs .. int_of_digits es])]"
    using assms(1,2,3,4,6) ne dg assms(5,10,11,7) by (rule parse_accession_ids_range)
  then show ?thesis by (simp only: int_of_digits_zeros)
qed

theorem range_expansion_drops_padding_witness:
  "parse_accession_ids ''L:PREFIX007-PREFIX010'' ''all'' =
     Inr [(''L'', [''PREFIX7'', ''PREFIX8'', ''PREFIX9'', ''PREFIX10''])]"
proof -
  have h: "CHR ''L'' \<in> set ''LSM''" "list_all is_space []" "''all'' = ''all'' \<or> ''all'' = [CHR ''L'']"
    "list_all is_word ''PREFIX''" "''PREFIX'' = [] \<or> \<not> is_digit (last ''PREFIX'')"
    "(0::nat) < 2" "list_all is_digit ''7''" "''010'' \<noteq> []" "list_all is_digit ''010''"
    by (simp_all add: is_word_def is_alnum_def is_digit_def code_def)
  have e: "map (\<lambda>num. ''PREFIX'' @ str_int num) [int_of_digits ''7'' .. int_of_digits ''010''] =
      [''PREFIX7'', ''PREFIX8'', ''PREFIX9'', ''PREFIX10'']"
    by code_simp
  have s: "CHR ''L'' # CHR '':'' # [] @ ''PREFIX'' @ (replicate 2 CHR ''0'' @ ''7'') @ CHR ''-'' # ''PREFIX'' @ ''010''
      = ''L:PREFIX007-PREFIX010''"
    by code_simp
  have "parse_accession_ids
      (CHR ''L'' # CHR '':'' # [] @ ''PREFIX'' @ (replicate 2 CHR ''0'' @ ''7'') @ CHR ''-'' # ''PREFIX'' @ ''010'') ''all'' =
      Inr [([CHR ''L''], map (\<lambda>num. ''PREFIX'' @ str_int num) [int_of_digits ''7'' .. int_of_digits ''010''])]"
    by (rule range_expansion_drops_padding [OF h(1,2,3,4,5,4,5,6,7,8,9)])
  then show ?thesis by (simp only: s e)
qed

text \<open>The padded identifiers of the specification are not what the parser returns.\<close>

theorem padded_range_counterexample:
  "parse_accession_ids ''L:PREFIX007-PREFIX010'' ''all'' \<noteq>
     Inr [(''L'', [''PREFIX007'', ''PREFIX008'', ''PREFIX009'', ''PREFIX010''])]"
  by code_simp

text \<open>
  C4 (as amended). A range token whose start and end identifiers have different prefixes
  does not fail: the end's prefix is ignored, the identifiers are built from the start's
  prefix, and the result is the one the token would have with the start's prefix on
  both sides.
\<close>

theorem range_end_prefix_ignored:
  assumes "k \<in> set ''LSM''" "list_all is_space sp" "segment = ''all'' \<or> segment = [k]"
    and "list_all is_word p" "p = [] \<or> \<not> is_digit (last p)"
    and "list_all is_word q" "q = [] \<or> \<not> is_digit (last q)"
    and "p \<noteq> q"
    and "ds \<noteq> []" "list_all is_digit ds"
    and "es \<noteq> []" "list_all is_digit es"
  shows "parse_accession_ids (k # CHR '':'' # sp @ p @ ds @ CHR ''-'' # q @ es) segment =
           Inr [([k], map (\<lambda>num. p @ str_int num) [int_of_digits ds .. int_of_digits es])]
       \<and> parse_accession_ids (k # CHR '':'' # sp @ p @ ds @ CHR ''-'' # q @ es) segment =
           parse_accession_ids (k # CHR '':'' # sp @ p @ ds @ CHR ''-'' # p @ es) segment"
proof -
  have 1: "parse_accession_ids (k # CHR '':'' # sp @ p @ ds @ CHR ''-'' # q @ es) segment =
      Inr [([k], map (\<lambda>num. p @ str_int num) [int_of_digits ds .. int_of_digits es])]"
    using assms(1,2,3,4,6,9,10,5,11,12,7) by (rule parse_accession_ids_range)
  have 2: "parse_accession_ids (k # CHR '':'' # sp @ p @ ds @ CHR ''-'' # p @ es) segment =
      Inr [([k], map (\<lambda>num. p @ str_int num) [int_of_digits ds .. int_of_digits es])]"
    using assms(1,2,3,4,4,9,10,5,11,12,5) by (rule parse_accession_ids_range)
  show ?thesis using 1 2 by simp
qed

text \<open>
  The range \<open>AB1-CD3\<close> expands as \<open>AB1-AB3\<close> does.
\<close>

theorem range_end_prefix_ignored_witness:
  "parse_accession_ids ''L:AB1-CD3'' ''all'' = Inr [(''L'', [''AB1'', ''AB2'', ''AB3''])]
   \<and> parse_accession_ids ''L:AB1-CD3'' ''all'' = parse_accession_ids ''L:AB1-AB3'' ''all''"
proof -
  have h: "CHR ''L'' \<in> set ''LSM''" "list_all is_space []" "''all'' = ''all'' \<or> ''all'' = [CHR ''L'']"
    "list_all is_word ''AB''" "''AB'' = [] \<or> \<not> is_digit (last ''AB'')"
    "list_all is_word ''CD''" "''CD'' = [] \<or> \<not> is_digit (last ''CD'')"
    "''AB'' \<noteq> ''CD''"
    "''1'' \<noteq> []" "list_all is_digit ''1''" "''3'' \<noteq> []" "list_all is_digit ''3''"
    by (simp_all add: is_word_def is_alnum_def is_digit_def code_def)
  have e: "map (\<lambda>num. ''AB'' @ str_int num) [int_of_digits ''1'' .. int_of_digits ''3''] =
      [''AB1'', ''AB2'', ''AB3'']"
    by code_simp
  have s: "CHR ''L'' # CHR '':'' # [] @ ''AB'' @ ''1'' @ CHR ''-'' # ''CD'' @ ''3'' = ''L:AB1-CD3''"
    "CHR ''L'' # CHR '':'' # [] @ ''AB'' @ ''1'' @ CHR ''-'' # ''AB'' @ ''3'' = ''L:AB1-AB3''"
    by simp_all
  have "parse_accession_ids (CHR ''L'' # CHR '':'' # [] @ ''AB'' @ ''1'' @ CHR ''-'' # ''CD'' @ ''3'') ''all'' =
           Inr [([CHR ''L''], map (\<lambda>num. ''AB'' @ str_int num) [int_of_digits ''1'' .. int_of_digits ''3''])]
       \<and> parse_accession_ids (CHR ''L'' # CHR '':'' # [] @ ''AB'' @ ''1'' @ CHR ''-'' # ''CD'' @ ''3'') ''all'' =
           parse_accession_ids (CHR ''L'' # CHR '':'' # [] @ ''AB'' @ ''1'' @ CHR ''-'' # ''AB'' @ ''3'') ''all''"
    by (rule range_end_prefix_ignored [OF h])
  then show ?thesis unfolding s e .
qed

text \<open>
  The parse of a token with mismatched prefixes succeeds.
\<close>

theorem prefix_mismatch_counterexample:
  "parse_accession_ids ''L:AB1-CD3'' ''all'' = Inr [(''L'', [''AB1'', ''AB2'', ''AB3''])]
   \<and> \<not> isl (parse_accession_ids ''L:AB1-CD3'' ''all'')"
  by code_simp

text \<open>
  C8. A range token whose numbers carry no leading zeros expands to the start's prefix
  followed by the plain decimal form of every integer from the start number to the end
  number: the first identifier is the start identifier, the last one is the end number
  under the start's prefix however many digits it has, and there is one identifier per
  integer. The range \<open>AB99-AB101\<close> gives \<open>AB99, AB100, AB101\<close>.
\<close>

theorem range_width_grows:
  assumes "k \<in> set ''LSM''" "list_all is_space sp" "segment = ''all'' \<or> segment = [k]"
    and "list_all is_word p" "p = [] \<or> \<not> is_digit (last p)"
    and "ds \<noteq> []" "list_all is_digit ds" "hd ds \<noteq> CHR ''0''"
    and "es \<noteq> []" "list_all is_digit es" "hd es \<noteq> CHR ''0''"
    and "int_of_digits ds \<le> int_of_digits es"
  shows "parse_accession_ids (k # CHR '':'' # sp @ p @ ds @ CHR ''-'' # p @ es) segment =
           Inr [([k], map (\<lambda>num. p @ str_int num) [int_of_digits ds .. int_of_digits es])]
       \<and> hd (map (\<lambda>num. p @ str_int num) [int_of_digits ds .. int_of_digits es]) = p @ ds
       \<and> last (map (\<lambda>num. p @ str_int num) [int_of_digits ds .. int_of_digits es]) = p @ es
       \<and> length (map (\<lambda>num. p @ str_int num) [int_of_digits ds .. int_of_digits es]) =
           nat (int_of_digits es - int_of_digits ds + 1)"
proof -
  let ?a = "int_of_digits ds" and ?b = "int_of_digits es"
  have 1: "parse_accession_ids (k # CHR '':'' # sp @ p @ ds @ CHR ''-'' # p @ es) segment =
      Inr [([k], map (\<lambda>num. p @ str_int num) [?a .. ?b])]"
    using assms(1,2,3,4,4,6,7,5,9,10,5) by (rule parse_accession_ids_range)
  have u: "hd [?a..?b] = ?a" "last [?a..?b] = ?b" "[?a..?b] \<noteq> []"
    using upto_hd_last [OF assms(12)] by simp_all
  have a: "str_int ?a = ds" using assms(6,7,8) by (intro str_int_of_digits) simp_all
  have b: "str_int ?b = es" using assms(9,10,11) by (intro str_int_of_digits) simp_all
  have 2: "hd (map (\<lambda>num. p @ str_int num) [?a .. ?b]) = p @ ds"
    using u a by (simp add: hd_map)
  have 3: "last (map (\<lambda>num. p @ str_int num) [?a .. ?b]) = p @ es"
    using u b by (simp add: last_map)
  show ?thesis using 1 2 3 by simp
qed

text \<open>
  The range \<open>AB99-AB101\<close> crosses from two digits to three.
\<close>

theorem range_width_grows_witness:
  "parse_accession_ids ''L:AB99-AB101'' ''all'' = Inr [(''L'', [''AB99'', ''AB100'', ''AB101''])]"
proof -
  have h: "CHR ''L'' \<in> set ''LSM''" "list_all is_space []" "''all'' = ''all'' \<or> ''all'' = [CHR ''L'']"
    "list_all is_word ''AB''" "''AB'' = [] \<or> \<not> is_digit (last ''AB'')"
    "''99'' \<noteq> []" "list_all is_digit ''99''" "hd ''99'' \<noteq> CHR ''0''"
    "''101'' \<noteq> []" "list_all is_digit ''101''" "hd ''101'' \<noteq> CHR ''0''"
    by (simp_all add: is_word_def is_alnum_def is_digit_def code_def)
  have le: "int_of_digits ''99'' \<le> int_of_digits ''101''" by code_simp
  have e: "map (\<lambda>num. ''AB'' @ str_int num) [int_of_digits ''99'' .. int_of_digits ''101''] =
      [''AB99'', ''AB100'', ''AB101'']"
    by code_simp
  have s: "CHR ''L'' # CHR '':'' # [] @ ''AB'' @ ''99'' @ CHR ''-'' # ''AB'' @ ''101'' = ''L:AB99-AB101''"
    by simp
  have "parse_accession_ids (CHR ''L'' # CHR '':'' # [] @ ''AB'' @ ''99'' @ CHR ''-'' # ''AB'' @ ''101'') ''all'' =
      Inr [([CHR ''L''], map (\<lambda>num. ''AB'' @ str_int num) [int_of_digits ''99'' .. int_of_digits ''101''])]"
    using range_width_grows [OF h le] by (rule conjunct1)
  then show ?thesis unfolding s e .
qed

text \<open>
  C7. Segment isolation: with the filter \<open>L\<close>, the string
  \<open>L: X1-X2, M: Y1-Y2\<close> gives the single key \<open>L\<close> with \<open>X1, X2\<close>; the key
  \<open>M\<close> is absent and none of its identifiers appears.
\<close>

theorem segment_isolation:
  "parse_accession_ids ''L: X1-X2, M: Y1-Y2'' ''L'' = Inr [(''L'', [''X1'', ''X2''])]"
  by code_simp

text \<open>
  C10. A group whose tokens are followed by a comma and whitespace ends at that comma:
  the match holds the tokens before it only, and (when no further marker follows) the
  parse is the parse of the string cut there. A list whose commas carry no whitespace
  is matched whole and splits into all of its tokens.
\<close>

theorem comma_space_truncates_group:
  assumes "k \<in> set ''LSM''" "list_all is_space sp" "ts \<noteq> []" "list_all is_token ts"
    and "is_space w" "CHR '':'' \<notin> set rest"
  shows "findall (k # CHR '':'' # sp @ join_commas ts @ CHR '','' # w # rest) = [([k], join_commas ts)]
       \<and> parse_accession_ids (k # CHR '':'' # sp @ join_commas ts @ CHR '','' # w # rest) segment =
           parse_accession_ids (k # CHR '':'' # sp @ join_commas ts) segment
       \<and> findall (k # CHR '':'' # sp @ join_commas ts) = [([k], join_commas ts)]
       \<and> split_on CHR '','' (join_commas ts) = ts"
proof -
  have st: "stops (CHR '','' # w # rest)" using assms(5) by (rule space_stops)
  have nc: "CHR '':'' \<notin> set (CHR '','' # w # rest)"
    using assms(6) space_not_colon [OF assms(5)] by simp
  have 1: "findall (k # CHR '':'' # sp @ join_commas ts @ CHR '','' # w # rest) = [([k], join_commas ts)]"
    using assms(1-4) st nc by (rule findall_group)
  have "findall (k # CHR '':'' # sp @ join_commas ts @ []) = [([k], join_commas ts)]"
    using assms(1-4) by (rule findall_group) (simp_all add: stops_def)
  then have 2: "findall (k # CHR '':'' # sp @ join_commas ts) = [([k], join_commas ts)]"
    by simp
  have 3: "split_on CHR '','' (join_commas ts) = ts"
    using assms(3,4) by (rule split_on_join_commas)
  show ?thesis using 1 2 3 by (simp add: parse_accession_ids_def)
qed

text \<open>
  In \<open>L: A1, B2\<close> the token \<open>B2\<close> is dropped.
\<close>

theorem comma_space_truncates_group_witness:
  "findall ''L: A1, B2'' = [(''L'', ''A1'')]
   \<and> parse_accession_ids ''L: A1, B2'' ''all'' = Inr [(''L'', [''A1''])]"
proof -
  have h: "CHR ''L'' \<in> set ''LSM''" "list_all is_space '' ''" "[''A1''] \<noteq> []"
    "list_all is_token [''A1'']" "is_space CHR '' ''" "CHR '':'' \<notin> set ''B2''"
    by (simp_all add: is_token_def is_word_or_hyphen_def is_word_def is_alnum_def is_space_def code_def)
  have s: "CHR ''L'' # CHR '':'' # '' '' @ join_commas [''A1''] @ CHR '','' # CHR '' '' # ''B2'' = ''L: A1, B2''"
    "CHR ''L'' # CHR '':'' # '' '' @ join_commas [''A1''] = ''L: A1''" "join_commas [''A1''] = ''A1''"
    by simp_all
  have e: "parse_accession_ids ''L: A1'' ''all'' = Inr [(''L'', [''A1''])]" by code_simp
  have "findall (CHR ''L'' # CHR '':'' # '' '' @ join_commas [''A1''] @ CHR '','' # CHR '' '' # ''B2'') =
          [([CHR ''L''], join_commas [''A1''])]
       \<and> parse_accession_ids (CHR ''L'' # CHR '':'' # '' '' @ join_commas [''A1''] @ CHR '','' # CHR '' '' # ''B2'') ''all'' =
           parse_accession_ids (CHR ''L'' # CHR '':'' # '' '' @ join_commas [''A1'']) ''all''
       \<and> findall (CHR ''L'' # CHR '':'' # '' '' @ join_commas [''A1'']) = [([CHR ''L''], join_commas [''A1''])]
       \<and> split_on CHR '','' (join_commas [''A1'']) = [''A1'']"
    by (rule comma_space_truncates_group [OF h])
  then have "findall ''L: A1, B2'' = [(''L'', ''A1'')]
       \<and> parse_accession_ids ''L: A1, B2'' ''all'' = parse_accession_ids ''L: A1'' ''all''"
    unfolding s by simp
  then show ?thesis using e by simp
qed

text \<open>
  C2 (as amended). A range token whose end number is smaller than its start number
  contributes no identifier: the other tokens of its group are parsed as if it were
  not there, and the loop goes on with the groups that follow. Nothing is reported.
\<close>

theorem reversed_range_skipped:
  assumes "k \<in> set ''LSM''" "list_all is_space sp" "segment = ''all'' \<or> segment = [k]"
    and "list_all is_word p" "p = [] \<or> \<not> is_digit (last p)"
    and "list_all is_word q" "q = [] \<or> \<not> is_digit (last q)"
    and "ds \<noteq> []" "list_all is_digit ds"
    and "es \<noteq> []" "list_all is_digit es"
    and "int_of_digits es < int_of_digits ds"
    and "list_all is_token pre" "list_all is_token post"
  shows "parse_part (p @ ds @ CHR ''-'' # q @ es) = Inr []
       \<and> parse_accession_ids
           (k # CHR '':'' # sp @ join_commas (pre @ (p @ ds @ CHR ''-'' # q @ es) # post)) segment =
         (case parse_parts [] (pre @ post) of Inl e \<Rightarrow> Inl e | Inr ids \<Rightarrow> Inr [([k], ids)])
       \<and> parse_pairs segment acc_dict
           (([k], join_commas (pre @ (p @ ds @ CHR ''-'' # q @ es) # post)) # rest) =
         (case parse_parts [] (pre @ post) of
            Inl e \<Rightarrow> Inl e
          | Inr ids \<Rightarrow> parse_pairs segment (AList.update [k] ids acc_dict) rest)"
proof -
  let ?tok = "p @ ds @ CHR ''-'' # q @ es"
  have "parse_part ?tok =
      Inr (map (\<lambda>num. p @ str_int num) [int_of_digits ds .. int_of_digits es])"
    using assms(4,6,8,9,5,10,11,7) by (rule parse_part_range_digits)
  then have 1: "parse_part ?tok = Inr []" using assms(12) by simp
  have tk: "is_token ?tok" using assms(4,6,9,11) by (rule range_token_is_token)
  have ts: "list_all is_token (pre @ ?tok # post)" using assms(13,14) tk by simp
  have "parse_accession_ids (k # CHR '':'' # sp @ join_commas (pre @ ?tok # post) @ []) segment =
     (case parse_parts [] (pre @ ?tok # post) of Inl e \<Rightarrow> Inl e | Inr ids \<Rightarrow> Inr [([k], ids)])"
    using assms(1,2) _ ts _ _ assms(3) by (rule parse_accession_ids_group) (simp_all add: stops_def)
  then have 2: "parse_accession_ids (k # CHR '':'' # sp @ join_commas (pre @ ?tok # post)) segment =
     (case parse_parts [] (pre @ post) of Inl e \<Rightarrow> Inl e | Inr ids \<Rightarrow> Inr [([k], ids)])"
    using 1 by (simp add: parse_parts_skip)
  have 3: "parse_pairs segment acc_dict (([k], join_commas (pre @ ?tok # post)) # rest) =
     (case parse_parts [] (pre @ post) of
        Inl e \<Rightarrow> Inl e
      | Inr ids \<Rightarrow> parse_pairs segment (AList.update [k] ids acc_dict) rest)"
    using 1 tk assms(13,14,3) by (rule parse_pairs_skip_reversed)
  show ?thesis using 1 2 3 by simp
qed

text \<open>
  In \<open>L:A5-A3,C2\<close> the reversed range gives nothing and \<open>C2\<close> is kept, and
  so is a group of \<open>M\<close> that follows.
\<close>

theorem reversed_range_skipped_witness:
  "parse_part ''A5-A3'' = Inr []
   \<and> parse_accession_ids ''L:A5-A3,C2'' ''all'' = Inr [(''L'', [''C2''])]
   \<and> parse_pairs ''all'' [] [(''L'', ''A5-A3,C2''), (''M'', ''D7'')] =
       Inr [(''L'', [''C2'']), (''M'', [''D7''])]"
proof -
  have h: "CHR ''L'' \<in> set ''LSM''" "list_all is_space []" "''all'' = ''all'' \<or> ''all'' = [CHR ''L'']"
    "list_all is_word ''A''" "''A'' = [] \<or> \<not> is_digit (last ''A'')"
    "list_all is_word ''A''" "''A'' = [] \<or> \<not> is_digit (last ''A'')"
    "''5'' \<noteq> []" "list_all is_digit ''5''" "''3'' \<noteq> []" "list_all is_digit ''3''"
    by (simp_all add: is_word_def is_alnum_def is_digit_def code_def)
  have lt: "int_of_digits ''3'' < int_of_digits ''5''" by code_simp
  have tk: "list_all is_token []" "list_all is_token [''C2'']"
    by (simp_all add: is_token_def is_word_or_hyphen_def is_word_def is_alnum_def code_def)
  have s1: "''A'' @ ''5'' @ CHR ''-'' # ''A'' @ ''3'' = ''A5-A3''"
    by simp
  have s2: "CHR ''L'' # CHR '':'' # [] @ join_commas ([] @ (''A'' @ ''5'' @ CHR ''-'' # ''A'' @ ''3'') # [''C2'']) =
      ''L:A5-A3,C2''"
    by simp
  have s3: "([CHR ''L''], join_commas ([] @ (''A'' @ ''5'' @ CHR ''-'' # ''A'' @ ''3'') # [''C2''])) # [(''M'', ''D7'')] =
      [(''L'', ''A5-A3,C2''), (''M'', ''D7'')]"
    by simp
  have e2: "(case parse_parts [] ([] @ [''C2'']) of Inl e \<Rightarrow> Inl e | Inr ids \<Rightarrow> Inr [([CHR ''L''], ids)])
      = Inr [(''L'', [''C2''])]"
    by code_simp
  have e3: "(case parse_parts [] ([] @ [''C2'']) of
        Inl e \<Rightarrow> Inl e
      | Inr ids \<Rightarrow> parse_pairs ''all'' (AList.update [CHR ''L''] ids []) [(''M'', ''D7'')])
      = Inr [(''L'', [''C2'']), (''M'', [''D7''])]"
    by code_simp
  note t = reversed_range_skipped [OF h lt tk, of "[]" "[(''M'', ''D7'')]"]
  have 1: "parse_part ''A5-A3'' = Inr []"
    using t [THEN conjunct1] by (simp only: s1)
  have 2: "parse_accession_ids ''L:A5-A3,C2'' ''all'' = Inr [(''L'', [''C2''])]"
    using t [THEN conjunct2, THEN conjunct1] by (simp only: s2 e2)
  have 3: "parse_pairs ''all'' [] [(''L'', ''A5-A3,C2''), (''M'', ''D7'')] =
      Inr [(''L'', [''C2'']), (''M'', [''D7''])]"
    using t [THEN conjunct2, THEN conjunct2] by (simp only: s3 e3)
  show ?thesis using 1 2 3 by simp
qed

text \<open>
  An end part without a trailing digit run raises AttributeError: the whole parse is
  lost, the later token \<open>C2\<close> included.
\<close>

theorem malformed_end_counterexample:
  "parse_accession_ids ''L:A1-B,C2'' ''all'' = Inl AttributeError"
  by code_simp

text \<open>
  C5 (as amended). When a segment code introduces more than one group, the result holds
  one entry for that segment, and its identifiers are those of the last such group:
  each assignment to the key replaces the list of the group before.
\<close>

theorem repeated_segment_last_group_wins:
  assumes "findall s = ps @ (k, g) # qs" "k \<notin> fst ` set qs"
    and "segment = ''all'' \<or> segment = k"
    and "parse_accession_ids s segment = Inr d"
  shows "distinct (map fst d)
       \<and> (\<exists>ids. parse_parts [] (split_on CHR '','' g) = Inr ids \<and> map_of d k = Some ids)"
proof -
  have p: "parse_pairs segment [] (ps @ (k, g) # qs) = Inr d"
    using assms(1,4) by (simp add: parse_accession_ids_def)
  have "distinct (map fst d)" using parse_pairs_distinct [OF p] by simp
  moreover have "\<exists>ids. parse_parts [] (split_on CHR '','' g) = Inr ids \<and> map_of d k = Some ids"
    using p assms(2,3) by (rule parse_pairs_last)
  ultimately show ?thesis by simp
qed

text \<open>
  In \<open>L: A1, L: B1\<close> the segment \<open>L\<close> ends with \<open>B1\<close> alone.
\<close>

theorem repeated_segment_last_group_wins_witness:
  "parse_accession_ids ''L: A1, L: B1'' ''all'' = Inr [(''L'', [''B1''])]
   \<and> parse_parts [] (split_on CHR '','' ''B1'') = Inr [''B1'']
   \<and> map_of [(''L'', [''B1''])] ''L'' = Some [''B1'']"
proof -
  have f: "findall ''L: A1, L: B1'' = [(''L'', ''A1'')] @ (''L'', ''B1'') # []" by code_simp
  have n: "''L'' \<notin> fst ` set ([] :: (string \<times> string) list)" by simp
  have a: "''all'' = ''all'' \<or> ''all'' = ''L''" by simp
  have r: "parse_accession_ids ''L: A1, L: B1'' ''all'' = Inr [(''L'', [''B1''])]" by code_simp
  have "distinct (map fst [(''L'', [''B1''])])
       \<and> (\<exists>ids. parse_parts [] (split_on CHR '','' ''B1'') = Inr ids \<and> map_of [(''L'', [''B1''])] ''L'' = Some ids)"
    by (rule repeated_segment_last_group_wins [OF f n a r])
  then show ?thesis using r by auto
qed

text \<open>
  The identifier \<open>A1\<close> of the first group is lost.
\<close>

theorem repeated_segment_counterexample:
  "parse_accession_ids ''L: A1, L: B1'' ''all'' = Inr [(''L'', [''B1''])]
   \<and> parse_accession_ids ''L: A1, L: B1'' ''all'' \<noteq> Inr [(''L'', [''A1'', ''B1''])]"
  by code_simp

text \<open>
  C6 (as amended). Sanitization is a total function: it deletes every character that is
  not alphanumeric, underscore, whitespace or hyphen, then turns each run of whitespace
  into a single underscore. The two names of the specification sanitize as stated.
\<close>

theorem sanitize_filename_rule:
  "sanitize_filename s =
     spec_collapse (filter (\<lambda>c. is_alnum c \<or> c = CHR ''_'' \<or> is_space c \<or> c = CHR ''-'') s)
   \<and> sanitize_filename ''Rift Valley fever virus'' = ''Rift_Valley_fever_virus''
   \<and> sanitize_filename ''Sp. (strain A)'' = ''Sp_strain_A''"
proof -
  have 1: "sanitize_filename s =
     spec_collapse (filter (\<lambda>c. is_alnum c \<or> c = CHR ''_'' \<or> is_space c \<or> c = CHR ''-'') s)"
    by (simp add: sanitize_filename_def strip_special_def is_word_def sub_spaces_spec_collapse disj_assoc)
  have 2: "sanitize_filename ''Rift Valley fever virus'' = ''Rift_Valley_fever_virus''"
    by code_simp
  have 3: "sanitize_filename ''Sp. (strain A)'' = ''Sp_strain_A''"
    by code_simp
  show ?thesis using 1 2 3 by simp
qed

text \<open>
  The underscore is neither alphanumeric nor whitespace nor the hyphen, and it is kept.
\<close>

theorem underscore_kept_counterexample:
  "sanitize_filename ''a_b'' = ''a_b'' \<and> spec_sanitize ''a_b'' = ''ab''
   \<and> \<not> is_alnum CHR ''_'' \<and> \<not> is_space CHR ''_''"
  by code_simp

text \<open>
  C3 (as amended). An archive in which two records have the same identifier after
  stripping the version suffix does not build an index: the construction stops with
  the duplicate-key ValueError, whatever accessions are requested.
\<close>

theorem duplicate_ids_abort_index:
  assumes "\<not> distinct (map key_function fasta)"
  shows "\<exists>k. read_fasta_sequences fasta accessions = Inl (ValueError_duplicate_key k)
           \<and> k \<in> key_function ` set fasta"
proof -
  obtain k where "to_dict [] fasta = Inl (ValueError_duplicate_key k)" "k \<in> key_function ` set fasta"
    using to_dict_duplicate [of fasta "[]"] assms by blast
  then show ?thesis by (auto simp: read_fasta_sequences_def)
qed

text \<open>
  Three records, two of them versions of \<open>A\<close>: the keys are not distinct and
  no index is built.
\<close>

theorem duplicate_ids_abort_index_witness:
  "\<not> distinct (map key_function
       [\<lparr>rec_id = ''A.1'', rec_seq = ''ACGT''\<rparr>, \<lparr>rec_id = ''B.1'', rec_seq = ''GG''\<rparr>,
        \<lparr>rec_id = ''A.2'', rec_seq = ''TTGA''\<rparr>])
   \<and> (\<exists>k. read_fasta_sequences
       [\<lparr>rec_id = ''A.1'', rec_seq = ''ACGT''\<rparr>, \<lparr>rec_id = ''B.1'', rec_seq = ''GG''\<rparr>,
        \<lparr>rec_id = ''A.2'', rec_seq = ''TTGA''\<rparr>] {''A'', ''B''} = Inl (ValueError_duplicate_key k)
      \<and> k \<in> key_function ` set
       [\<lparr>rec_id = ''A.1'', rec_seq = ''ACGT''\<rparr>, \<lparr>rec_id = ''B.1'', rec_seq = ''GG''\<rparr>,
        \<lparr>rec_id = ''A.2'', rec_seq = ''TTGA''\<rparr>])"
proof -
  let ?fasta = "[\<lparr>rec_id = ''A.1'', rec_seq = ''ACGT''\<rparr>, \<lparr>rec_id = ''B.1'', rec_seq = ''GG''\<rparr>,
      \<lparr>rec_id = ''A.2'', rec_seq = ''TTGA''\<rparr>]"
  have k: "map key_function ?fasta = [''A'', ''B'', ''A'']" by code_simp
  have nd: "\<not> distinct (map key_function ?fasta)" unfolding k by simp
  show ?thesis using nd duplicate_ids_abort_index [OF nd, of "{''A'', ''B''}"] by blast
qed

text \<open>
  Two versions of one identifier: no index is built, and the first record is not kept.
\<close>

theorem duplicate_ids_counterexample:
  "read_fasta_sequences
     [\<lparr>rec_id = ''A.1'', rec_seq = ''ACGT''\<rparr>, \<lparr>rec_id = ''A.2'', rec_seq = ''TTGA''\<rparr>] {''A''} =
   Inl (ValueError_duplicate_key ''A'')"
proof -
  have "to_dict [] [\<lparr>rec_id = ''A.1'', rec_seq = ''ACGT''\<rparr>, \<lparr>rec_id = ''A.2'', rec_seq = ''TTGA''\<rparr>] =
      Inl (ValueError_duplicate_key ''A'')"
    by code_simp
  then show ?thesis by (simp add: read_fasta_sequences_def)
qed

text \<open>
  C9. When the output folder is there or can be made, every accession string parses and
  the system lets every file be opened, the run succeeds whatever the lookup table
  holds: it writes, row after row, the group of each row to the row's path and nothing
  else. The file of a row (the last row written to its path) then holds exactly the
  records of the row's identifiers that are present, in the order of the segments and of
  the tokens within each. An absent identifier is skipped: it fails neither the row nor
  the run.
\<close>

theorem absent_ids_skipped:
  assumes "os_path_exists env output_folder \<or> os_makedirs env output_folder = None"
    and "\<forall>x\<in>set df. \<not> isl (parse_accession_ids (accession x) segment)"
    and "\<forall>x\<in>set df. \<forall>fs. open_w env fs (filepath_of output_folder segment x) = None"
    and "df = pre @ r # post"
    and "filepath_of output_folder segment r \<notin> filepath_of output_folder segment ` set post"
    and "parse_accession_ids (accession r) segment = Inr acc_dict"
  shows "write_fasta_files env df sequences output_folder segment files =
           Inr (foldl (\<lambda>fs x. AList.update (filepath_of output_folder segment x)
                                (group_records sequences segment x) fs) files df)
       \<and> map_of (foldl (\<lambda>fs x. AList.update (filepath_of output_folder segment x)
                                (group_records sequences segment x) fs) files df)
             (filepath_of output_folder segment r) =
           Some (map the (filter (\<lambda>x. x \<noteq> None) (map sequences (concat (map snd acc_dict)))))"
proof -
  let ?p = "filepath_of output_folder segment" and ?c = "group_records sequences segment"
  have w: "write_fasta_files env df sequences output_folder segment files =
      Inr (foldl (\<lambda>fs x. AList.update (?p x) (?c x) fs) files df)"
    using assms(1,2,3) by (rule write_fasta_files_content)
  have "map_of (foldl (\<lambda>fs x. AList.update (?p x) (?c x) fs) files (pre @ r # post)) (?p r) = Some (?c r)"
    using assms(5) by (rule map_of_foldl_update_last)
  then have "map_of (foldl (\<lambda>fs x. AList.update (?p x) (?c x) fs) files df) (?p r) =
      Some (map the (filter (\<lambda>x. x \<noteq> None) (map sequences (concat (map snd acc_dict)))))"
    using assms(4) group_records_parsed [OF assms(6)] by simp
  then show ?thesis using w by simp
qed

text \<open>
  Three rows into a folder that has to be made: the second row lists
  \<open>MN1, MN2, MN3\<close> with \<open>MN2\<close> absent, replaces the file of the first row and is
  written with two records.
\<close>

theorem absent_ids_skipped_witness:
  "write_fasta_files
      \<lparr>exists_at_start = (\<lambda>p. False), makedirs_error = (\<lambda>p. None), open_error = (\<lambda>fs p. None)\<rparr>
      [\<lparr>species = ''Foo bar'', virus_names = ''FBV'', accession = ''L: XX9''\<rparr>,
       \<lparr>species = ''Foo bar'', virus_names = ''FBV'', accession = ''L: MN1-MN3''\<rparr>,
       \<lparr>species = ''Baz'', virus_names = ''BZV'', accession = ''S: MN1''\<rparr>]
      [''MN1'' \<mapsto> \<lparr>rec_id = ''MN1.1'', rec_seq = ''ACGT''\<rparr>,
       ''MN3'' \<mapsto> \<lparr>rec_id = ''MN3.2'', rec_seq = ''TTGA''\<rparr>]
      ''out'' ''all'' [] =
    Inr [(''out/Foo_bar_FBV_all.fasta'',
          [\<lparr>rec_id = ''MN1.1'', rec_seq = ''ACGT''\<rparr>, \<lparr>rec_id = ''MN3.2'', rec_seq = ''TTGA''\<rparr>]),
         (''out/Baz_BZV_all.fasta'', [\<lparr>rec_id = ''MN1.1'', rec_seq = ''ACGT''\<rparr>])]"
proof -
  let ?env = "\<lparr>exists_at_start = (\<lambda>p. False), makedirs_error = (\<lambda>p. None),
      open_error = (\<lambda>fs p. None)\<rparr>"
  let ?first = "\<lparr>species = ''Foo bar'', virus_names = ''FBV'', accession = ''L: XX9''\<rparr>"
  let ?row = "\<lparr>species = ''Foo bar'', virus_names = ''FBV'', accession = ''L: MN1-MN3''\<rparr>"
  let ?third = "\<lparr>species = ''Baz'', virus_names = ''BZV'', accession = ''S: MN1''\<rparr>"
  let ?seqs = "[''MN1'' \<mapsto> \<lparr>rec_id = ''MN1.1'', rec_seq = ''ACGT''\<rparr>,
                ''MN3'' \<mapsto> \<lparr>rec_id = ''MN3.2'', rec_seq = ''TTGA''\<rparr>]"
  have p0: "parse_accession_ids (accession ?first) ''all'' = Inr [(''L'', [''XX9''])]"
    by code_simp
  have p: "parse_accession_ids (accession ?row) ''all'' = Inr [(''L'', [''MN1'', ''MN2'', ''MN3''])]"
    by code_simp
  have p2: "parse_accession_ids (accession ?third) ''all'' = Inr [(''S'', [''MN1''])]"
    by code_simp
  have f0: "filepath_of ''out'' ''all'' ?first = ''out/Foo_bar_FBV_all.fasta''" by code_simp
  have f: "filepath_of ''out'' ''all'' ?row = ''out/Foo_bar_FBV_all.fasta''" by code_simp
  have f2: "filepath_of ''out'' ''all'' ?third = ''out/Baz_BZV_all.fasta''" by code_simp
  have h1: "os_path_exists ?env ''out'' \<or> os_makedirs ?env ''out'' = None"
    by (simp add: os_makedirs_def has_null_def)
  have h2: "\<forall>x\<in>set [?first, ?row, ?third]. \<not> isl (parse_accession_ids (accession x) ''all'')"
    using p0 p p2 by simp
  have h3: "\<forall>x\<in>set [?first, ?row, ?third]. \<forall>fs. open_w ?env fs (filepath_of ''out'' ''all'' x) = None"
    using f0 f f2 by (simp add: open_w_def has_null_def)
  have h4: "[?first, ?row, ?third] = [?first] @ ?row # [?third]" by simp
  have h5: "filepath_of ''out'' ''all'' ?row \<notin> filepath_of ''out'' ''all'' ` set [?third]"
    using f f2 by simp
  have g0: "group_records ?seqs ''all'' ?first = []"
    using p0 by (simp add: group_records_def)
  have g: "group_records ?seqs ''all'' ?row =
      [\<lparr>rec_id = ''MN1.1'', rec_seq = ''ACGT''\<rparr>, \<lparr>rec_id = ''MN3.2'', rec_seq = ''TTGA''\<rparr>]"
    using p by (simp add: group_records_def)
  have g2: "group_records ?seqs ''all'' ?third = [\<lparr>rec_id = ''MN1.1'', rec_seq = ''ACGT''\<rparr>]"
    using p2 by (simp add: group_records_def)
  have e: "foldl (\<lambda>fs x. AList.update (filepath_of ''out'' ''all'' x) (group_records ?seqs ''all'' x) fs)
        [] [?first, ?row, ?third] =
      [(''out/Foo_bar_FBV_all.fasta'',
          [\<lparr>rec_id = ''MN1.1'', rec_seq = ''ACGT''\<rparr>, \<lparr>rec_id = ''MN3.2'', rec_seq = ''TTGA''\<rparr>]),
       (''out/Baz_BZV_all.fasta'', [\<lparr>rec_id = ''MN1.1'', rec_seq = ''ACGT''\<rparr>])]"
    by (simp add: f0 f f2 g0 g g2)
  have "write_fasta_files ?env [?first, ?row, ?third] ?seqs ''out'' ''all'' [] =
      Inr (foldl (\<lambda>fs x. AList.update (filepath_of ''out'' ''all'' x) (group_records ?seqs ''all'' x) fs)
        [] [?first, ?row, ?third])"
    using absent_ids_skipped [OF h1 h2 h3 h4 h5 p, of ?seqs "[]"] by (rule conjunct1)
  then show ?thesis by (simp only: e)
qed

end
